theory Spec2Isabelle
  imports Main "HOL-Library.Word"
begin

section \<open>Machine types\<close>

text \<open>
  Arduino's \<open>byte\<close> is an unsigned 8-bit integer, \<open>int16_t\<close> a 16-bit one, and
  \<open>millis()\<close> returns an unsigned 32-bit millisecond counter that wraps around.
\<close>

type_synonym byte = "8 word"
type_synonym int16 = "16 word"
type_synonym uint32 = "32 word"

section \<open>KeypadDevice: debouncing and key change detection\<close>

text \<open>
  The enumeration \<open>KeypadState\<close> of KeypadDevice.hpp; the device stores keys as
  \<open>byte\<close>, so each enumerator is given as its byte value.
\<close>

definition btnNONE :: byte where "btnNONE = 0"
definition btnRIGHT :: byte where "btnRIGHT = 1"
definition btnUP :: byte where "btnUP = 2"
definition btnDOWN :: byte where "btnDOWN = 3"
definition btnLEFT :: byte where "btnLEFT = 4"
definition btnSELECT :: byte where "btnSELECT = 5"

text \<open>
  The private members of class \<open>KeypadDevice\<close>. The C++ names start with an
  underscore; here they carry the prefix \<open>kp_\<close>.
\<close>

record KeypadDevice =
  kp_currentKey :: byte
  kp_analogKeyValue :: int16
  kp_lastKeyChange :: uint32
  kp_lastKey :: byte
  kp_newKey :: byte
  kp_lastNewKey :: byte

text \<open>
  What one call of \<open>debounceKeypad\<close> reads from its environment: the raw key and
  the analog value returned by \<open>readKeypadState\<close>, and the value of \<open>millis()\<close>
  (the function calls \<open>millis()\<close> on each of its two branches, once per call).
\<close>

record poll =
  rawKey :: byte
  analogValue :: int16
  millis :: uint32

text \<open>
  The constructor: \<open>_currentKey(-1), _analogKeyValue(0), _lastKeyChange(0),
  _lastKey(-2), _newKey(-1), _lastNewKey(-2)\<close>; the negative initialisers are
  converted to \<open>byte\<close>, giving 255 and 254.
\<close>

definition KeypadDevice_init :: KeypadDevice where
  "KeypadDevice_init =
     \<lparr> kp_currentKey = - 1, kp_analogKeyValue = 0, kp_lastKeyChange = 0,
       kp_lastKey = - 2, kp_newKey = - 1, kp_lastNewKey = - 2 \<rparr>"

text \<open>
  \<open>DEBOUNCE_PERIOD\<close> is declared \<open>int32_t\<close>; in
  \<open>millis() - _lastKeyChange > DEBOUNCE_PERIOD\<close> the left operand is unsigned
  32-bit, so the comparison is made on unsigned 32-bit values and the
  subtraction wraps around.
\<close>

definition DEBOUNCE_PERIOD :: uint32 where "DEBOUNCE_PERIOD = 5"

definition debounceKeypad :: "KeypadDevice \<Rightarrow> poll \<Rightarrow> KeypadDevice" where
  "debounceKeypad s p =
     (let s1 = s\<lparr> kp_currentKey := rawKey p, kp_analogKeyValue := analogValue p \<rparr>
      in if kp_currentKey s1 \<noteq> kp_lastKey s1
         then s1\<lparr> kp_lastKey := kp_currentKey s1, kp_lastKeyChange := millis p \<rparr>
         else if DEBOUNCE_PERIOD < millis p - kp_lastKeyChange s1
              then s1\<lparr> kp_newKey := kp_currentKey s1 \<rparr>
              else s1)"

text \<open>The accessors: each one polls the hardware first. They return the new state and the value.\<close>

definition currentKey :: "KeypadDevice \<Rightarrow> poll \<Rightarrow> KeypadDevice \<times> byte" where
  "currentKey s p = (let s' = debounceKeypad s p in (s', kp_newKey s'))"

definition currentState :: "KeypadDevice \<Rightarrow> poll \<Rightarrow> KeypadDevice \<times> byte" where
  "currentState s p = (let s' = debounceKeypad s p in (s', kp_currentKey s'))"

definition currentAnalogState :: "KeypadDevice \<Rightarrow> poll \<Rightarrow> KeypadDevice \<times> int16" where
  "currentAnalogState s p = (let s' = debounceKeypad s p in (s', kp_analogKeyValue s'))"

text \<open>
  \<open>keyChanged(byte* pNewKey)\<close>: the byte behind the pointer is passed in and
  returned; the result is (new state, byte behind \<open>pNewKey\<close>, return value).
\<close>

definition keyChanged :: "KeypadDevice \<Rightarrow> poll \<Rightarrow> byte \<Rightarrow> KeypadDevice \<times> byte \<times> bool" where
  "keyChanged s p out =
     (let s' = debounceKeypad s p
      in if kp_newKey s' \<noteq> kp_lastNewKey s'
         then (s'\<lparr> kp_lastNewKey := kp_newKey s' \<rparr>, kp_newKey s', True)
         else (s', out, False))"

text \<open>A sequence of polls made through \<open>currentKey\<close>, one hardware reading per call.\<close>

fun pollKeys :: "KeypadDevice \<Rightarrow> poll list \<Rightarrow> KeypadDevice" where
  "pollKeys s [] = s"
| "pollKeys s (p # ps) = pollKeys (fst (currentKey s p)) ps"

text \<open>
  The committed keys returned by the successive \<open>currentKey\<close> calls of a
  sequence of polls.
\<close>

fun currentKeys :: "KeypadDevice \<Rightarrow> poll list \<Rightarrow> byte list" where
  "currentKeys s [] = []"
| "currentKeys s (p # ps) = snd (currentKey s p) # currentKeys (fst (currentKey s p)) ps"

section \<open>Display devices\<close>

text \<open>
  Every display device other than the interface prototype declares the 1602
  geometry: \<open>NUM_ROWS = 2\<close> and \<open>NUM_COLUMNS = 16\<close>.
\<close>

definition NUM_ROWS :: nat where "NUM_ROWS = 2"
definition NUM_COLUMNS :: nat where "NUM_COLUMNS = 16"

text \<open>
  The calls the menu makes on its \<open>DisplayDevice\<close>. A display is represented
  by the sequence of calls it has received, oldest first.
\<close>

datatype display_op = SetContrast byte | Clear | SetCursor byte byte | PrintChar char

subsection \<open>HD44780DisplayDevice\<close>

text \<open>The CGRAM locations of enum \<open>SpecialSymbols\<close>.\<close>

definition SYMBOL_DEGREES :: byte where "SYMBOL_DEGREES = 0"
definition SYMBOL_MINUTES :: byte where "SYMBOL_MINUTES = 1"
definition SYMBOL_LEFT_ARROW :: byte where "SYMBOL_LEFT_ARROW = 2"
definition SYMBOL_RIGHT_ARROW :: byte where "SYMBOL_RIGHT_ARROW = 3"
definition SYMBOL_UP_ARROW :: byte where "SYMBOL_UP_ARROW = 4"
definition SYMBOL_DOWN_ARROW :: byte where "SYMBOL_DOWN_ARROW = 5"
definition SYMBOL_NO_TRACKING :: byte where "SYMBOL_NO_TRACKING = 6"
definition SYMBOL_TRACKING :: byte where "SYMBOL_TRACKING = 7"

text \<open>
  \<open>HD44780DisplayDevice::translateChar\<close>; \<open>CHR 0x27\<close> is the apostrophe.
  The final \<open>return ch\<close> converts the \<open>char\<close> to \<open>byte\<close>.
\<close>

definition translateChar :: "char \<Rightarrow> byte" where
  "translateChar ch =
     (if ch = CHR ''@'' then SYMBOL_DEGREES
      else if ch = CHR 0x27 then SYMBOL_MINUTES
      else if ch = CHR ''<'' then SYMBOL_LEFT_ARROW
      else if ch = CHR ''>'' then SYMBOL_RIGHT_ARROW
      else if ch = CHR ''^'' then SYMBOL_UP_ARROW
      else if ch = CHR ''~'' then SYMBOL_DOWN_ARROW
      else if ch = CHR ''`'' then SYMBOL_NO_TRACKING
      else if ch = CHR ''&'' then SYMBOL_TRACKING
      else of_char ch)"

text \<open>
  Both HD44780 devices print with \<open>_lcd.write(translateChar(ch))\<close>; the result
  is the list of calls made on the LCD library.
\<close>

datatype lcd_call = lcd_write byte

definition LcdKeypadShieldDisplayDevice_printChar :: "char \<Rightarrow> lcd_call list" where
  "LcdKeypadShieldDisplayDevice_printChar ch = [lcd_write (translateChar ch)]"

definition MCP23008_MCP23017DisplayDevice_printChar :: "char \<Rightarrow> lcd_call list" where
  "MCP23008_MCP23017DisplayDevice_printChar ch = [lcd_write (translateChar ch)]"

subsection \<open>SSD1306DisplayDevice\<close>

text \<open>
  \<open>SSD1306DisplayDevice::printChar\<close> selects a font and draws one glyph at the
  library's text position \<open>(tx++, ty)\<close>; the result is the list of calls made
  on the U8x8 library, without the position.
\<close>

datatype u8x8_font =
  u8x8_font_7x14_1x2_f | u8x8_font_open_iconic_arrow_1x1 | u8x8_font_open_iconic_thing_1x1

datatype u8x8_call = setFont u8x8_font | drawGlyph byte | draw1x2Glyph byte

definition SSD1306DisplayDevice_printChar :: "char \<Rightarrow> u8x8_call list" where
  "SSD1306DisplayDevice_printChar ch =
     (if ch = CHR ''>'' then [setFont u8x8_font_open_iconic_arrow_1x1, draw1x2Glyph (64 + 14)]
      else if ch = CHR ''<'' then [setFont u8x8_font_open_iconic_arrow_1x1, draw1x2Glyph (64 + 13)]
      else if ch = CHR ''^'' then [setFont u8x8_font_open_iconic_arrow_1x1, draw1x2Glyph (64 + 15)]
      else if ch = CHR ''~'' then [setFont u8x8_font_open_iconic_arrow_1x1, draw1x2Glyph (64 + 12)]
      else if ch = CHR ''@'' then [setFont u8x8_font_7x14_1x2_f, drawGlyph 176]
      else if ch = CHR ''&'' then [setFont u8x8_font_open_iconic_thing_1x1, draw1x2Glyph (64 + 15)]
      else if ch = CHR ''`'' then [setFont u8x8_font_open_iconic_thing_1x1, draw1x2Glyph (64 + 4)]
      else [setFont u8x8_font_7x14_1x2_f, drawGlyph (of_char ch)])"

subsection \<open>NullDisplayDevice\<close>

text \<open>\<open>void printChar(char ch) {}\<close>: no call is made on any library.\<close>

definition NullDisplayDevice_printChar :: "char \<Rightarrow> 'call list" where
  "NullDisplayDevice_printChar ch = []"

subsection \<open>What the display shows\<close>

text \<open>
  The display hardware and its driver libraries are outside the repository.
  What a display shows after a sequence of calls is modelled from the
  documentation of \<open>DisplayDeviceInterface\<close> in DisplayDevice.hpp: \<open>clear\<close> clears
  all content, \<open>setCursor\<close> moves the cursor to (col, row), and \<open>printChar\<close>
  prints a character at the cursor and moves the cursor one character to the
  right, wrapping to the next row. The display starts blank; \<open>clear\<close> also
  homes the cursor, as the driver libraries do. Characters are recorded as
  passed to \<open>printChar\<close>, before symbol translation.
\<close>

record screen =
  sc_cells :: "nat \<Rightarrow> nat \<Rightarrow> char"
  sc_row :: nat
  sc_col :: nat

definition blank_screen :: screen where
  "blank_screen = \<lparr> sc_cells = (\<lambda>row col. CHR '' ''), sc_row = 0, sc_col = 0 \<rparr>"

fun display_step :: "screen \<Rightarrow> display_op \<Rightarrow> screen" where
  "display_step sc (SetContrast contrast) = sc"
| "display_step sc Clear = blank_screen"
| "display_step sc (SetCursor col row) = sc\<lparr> sc_row := unat row, sc_col := unat col \<rparr>"
| "display_step sc (PrintChar ch) =
     (let sc' = sc\<lparr> sc_cells := (sc_cells sc)(sc_row sc := (sc_cells sc (sc_row sc))(sc_col sc := ch)) \<rparr>
      in if sc_col sc + 1 < NUM_COLUMNS then sc'\<lparr> sc_col := sc_col sc + 1 \<rparr>
         else sc'\<lparr> sc_row := sc_row sc + 1, sc_col := 0 \<rparr>)"

definition shown :: "display_op list \<Rightarrow> screen" where
  "shown ops = foldl display_step blank_screen ops"

definition shownRow :: "display_op list \<Rightarrow> nat \<Rightarrow> string" where
  "shownRow ops row = map (sc_cells (shown ops) row) [0..<NUM_COLUMNS]"

section \<open>FullLcdMenu\<close>

text \<open>Class \<open>MenuItem\<close>: the text shown on the menu and the identifier.\<close>

record MenuItem =
  mi_display :: string
  mi_id :: byte

text \<open>
  The C++ code has no error channel. Where it would read or write outside an
  array (undefined behaviour) the model returns one of these values instead.
\<close>

datatype error =
  ItemArrayOverflow | ItemIndexOutOfRange | ScratchBufferOverflow | RowIndexOutOfRange

text \<open>
  The members of class \<open>FullLcdMenu\<close> that the menu logic uses, with the prefix
  \<open>lm_\<close> in place of the underscore. \<open>lm_menuItems\<close> holds the entries of the
  array \<open>_menuItems\<close> that have been filled, in order; \<open>_numMenuItems\<close> is the
  length of that list. \<open>lm_lastDisplay\<close> is the array \<open>_lastDisplay\<close>, indexed by
  row, and \<open>lm_display\<close> the calls received by \<open>_display\<close>.
\<close>

record FullLcdMenu =
  lm_maxItems :: byte
  lm_menuItems :: "MenuItem list"
  lm_activeMenuIndex :: byte
  lm_longestDisplay :: byte
  lm_activeRow :: byte
  lm_activeCol :: byte
  lm_lastDisplay :: "nat \<Rightarrow> string"
  lm_display :: "display_op list"

definition numMenuItems :: "FullLcdMenu \<Rightarrow> nat" where
  "numMenuItems m = length (lm_menuItems m)"

text \<open>
  The constructor \<open>FullLcdMenu(int maxItems)\<close>: \<open>_activeRow(-1), _activeCol(-1)\<close>
  are bytes, so both start at 255; every row of \<open>_lastDisplay\<close> is the empty
  string.
\<close>

definition FullLcdMenu_init :: "int \<Rightarrow> FullLcdMenu" where
  "FullLcdMenu_init maxItems =
     \<lparr> lm_maxItems = word_of_int maxItems, lm_menuItems = [], lm_activeMenuIndex = 0,
       lm_longestDisplay = 0, lm_activeRow = 255, lm_activeCol = 255,
       lm_lastDisplay = (\<lambda>row. []), lm_display = [] \<rparr>"

fun findById_from :: "MenuItem list \<Rightarrow> byte \<Rightarrow> MenuItem option" where
  "findById_from [] ident = None"
| "findById_from (item # items) ident =
     (if mi_id item = ident then Some item else findById_from items ident)"

definition findById :: "FullLcdMenu \<Rightarrow> byte \<Rightarrow> MenuItem option" where
  "findById m ident = findById_from (lm_menuItems m) ident"

text \<open>
  \<open>addItem\<close> stores at index \<open>_numMenuItems\<close> without a bounds check; the array
  has \<open>_maxItems\<close> entries. The longest display length is computed as
  \<open>size_t\<close> and stored in a byte.
\<close>

definition addItem :: "FullLcdMenu \<Rightarrow> string \<Rightarrow> byte \<Rightarrow> error + FullLcdMenu" where
  "addItem m disp ident =
     (if unat (lm_maxItems m) \<le> numMenuItems m then Inl ItemArrayOverflow
      else Inr (m\<lparr> lm_menuItems := lm_menuItems m @ [\<lparr> mi_display = disp, mi_id = ident \<rparr>],
                   lm_longestDisplay := of_nat (max (unat (lm_longestDisplay m)) (length disp)) \<rparr>))"

definition getActive :: "FullLcdMenu \<Rightarrow> error + byte" where
  "getActive m =
     (if unat (lm_activeMenuIndex m) < numMenuItems m
      then Inr (mi_id (lm_menuItems m ! unat (lm_activeMenuIndex m)))
      else Inl ItemIndexOutOfRange)"

text \<open>
  The loop of \<open>setActive\<close>, from index \<open>i\<close> on: the first item with the
  identifier becomes the active one and the loop stops (\<open>break\<close>).
\<close>

function setActive_loop :: "FullLcdMenu \<Rightarrow> byte \<Rightarrow> nat \<Rightarrow> FullLcdMenu" where
  "setActive_loop m ident i =
     (if i < numMenuItems m
      then (if mi_id (lm_menuItems m ! i) = ident
            then m\<lparr> lm_activeMenuIndex := of_nat i \<rparr>
            else setActive_loop m ident (i + 1))
      else m)"
  by pat_completeness auto
termination
  by (relation "measure (\<lambda>(m, ident, i). numMenuItems m - i)") auto

declare setActive_loop.simps [simp del]

definition setActive :: "FullLcdMenu \<Rightarrow> byte \<Rightarrow> FullLcdMenu" where
  "setActive m ident = setActive_loop m ident 0"

text \<open>\<open>setCursor\<close> only records the position; it makes no call on the display.\<close>

definition setCursor :: "FullLcdMenu \<Rightarrow> byte \<Rightarrow> byte \<Rightarrow> FullLcdMenu" where
  "setCursor m col row = m\<lparr> lm_activeRow := row, lm_activeCol := col \<rparr>"

definition clear :: "FullLcdMenu \<Rightarrow> FullLcdMenu" where
  "clear m = m\<lparr> lm_display := lm_display m @ [Clear] \<rparr>"

text \<open>\<open>printAt(int col, int row, char ch)\<close>; the display takes bytes.\<close>

definition printAt :: "FullLcdMenu \<Rightarrow> int \<Rightarrow> int \<Rightarrow> char \<Rightarrow> FullLcdMenu" where
  "printAt m col row ch =
     m\<lparr> lm_display := lm_display m @ [SetCursor (word_of_int col) (word_of_int row), PrintChar ch] \<rparr>"

text \<open>
  \<open>printMenu\<close> reads \<open>_lastDisplay[_activeRow]\<close>, an array of \<open>NUM_ROWS\<close>
  strings. When it writes, it stores the line, moves the display cursor,
  prints every character and then \<open>NUM_COLUMNS - line.length()\<close> blanks
  (none when that number is not positive). The C++ subtraction is unsigned and
  its result is converted to \<open>int\<close>; for every line that fits in memory this is
  the integer difference.
\<close>

definition printMenu :: "FullLcdMenu \<Rightarrow> string \<Rightarrow> error + FullLcdMenu" where
  "printMenu m line =
     (if NUM_ROWS \<le> unat (lm_activeRow m) then Inl RowIndexOutOfRange
      else if lm_lastDisplay m (unat (lm_activeRow m)) \<noteq> line \<or> lm_activeCol m \<noteq> 0
      then (let spaces = int NUM_COLUMNS - int (length line)
            in Inr (m\<lparr> lm_lastDisplay := (lm_lastDisplay m)(unat (lm_activeRow m) := line),
                         lm_display := lm_display m
                            @ [SetCursor (lm_activeCol m) (lm_activeRow m)]
                            @ map PrintChar line
                            @ replicate (nat spaces) (PrintChar CHR '' '') \<rparr>))
      else Inr m)"

subsection \<open>updateDisplay\<close>

text \<open>\<open>char scratchBuffer[12]\<close>, filled by \<open>sprintf\<close> with marker, label, marker and the final NUL.\<close>

definition scratchBufferSize :: nat where "scratchBufferSize = 12"

text \<open>
  The first loop of \<open>updateDisplay\<close>, over the items from index \<open>i\<close> on. The
  accumulator is \<open>(menuString, offsetToActive, offset)\<close>; both offsets are
  bytes and wrap around. \<open>sprintf\<close> writes the wrapped item and a NUL into
  \<open>scratchBuffer\<close>; a label of more than 9 characters does not fit.
\<close>

fun buildMenuString ::
  "MenuItem list \<Rightarrow> nat \<Rightarrow> byte \<Rightarrow> string \<times> byte \<times> byte \<Rightarrow> error + string \<times> byte \<times> byte" where
  "buildMenuString [] i active (menuString, offsetToActive, offset) =
     Inr (menuString, offsetToActive, offset)"
| "buildMenuString (item # items) i active (menuString, offsetToActive, offset) =
     (let isActive = (of_nat i = active);
          scratchBuffer = (if isActive then CHR ''>'' else CHR '' '') # mi_display item
                            @ [if isActive then CHR ''<'' else CHR '' '']
      in if scratchBufferSize < length scratchBuffer + 1 then Inl ScratchBufferOverflow
         else buildMenuString items (i + 1) active
                (menuString @ scratchBuffer,
                 if isActive then offset else offsetToActive,
                 offset + of_nat (length scratchBuffer)))"

text \<open>Division of C++ \<open>int\<close>s truncates towards zero.\<close>

definition c_div :: "int \<Rightarrow> int \<Rightarrow> int" where
  "c_div a b = sgn a * sgn b * (\<bar>a\<bar> div \<bar>b\<bar>)"

definition usableColumns :: int where "usableColumns = int NUM_COLUMNS - 1"

definition margin :: "FullLcdMenu \<Rightarrow> int" where
  "margin m = c_div (usableColumns - uint (lm_longestDisplay m)) 2"

text \<open>
  The three \<open>while\<close> loops that fill \<open>bufMenu\<close>. The buffer is the list of
  characters written so far, so \<open>pBufMenu < bufMenu + n\<close> reads
  \<open>length bufMenu < n\<close>.
\<close>

function padFront :: "string \<Rightarrow> int \<Rightarrow> string \<times> int" where
  "padFront bufMenu offsetIntoString =
     (if offsetIntoString < 0 then padFront (bufMenu @ [CHR '' '']) (offsetIntoString + 1)
      else (bufMenu, offsetIntoString))"
  by pat_completeness auto
termination
  by (relation "measure (\<lambda>(bufMenu, offsetIntoString). nat (- offsetIntoString))") auto

function copyMenuString :: "string \<Rightarrow> string \<Rightarrow> int \<Rightarrow> string \<times> int" where
  "copyMenuString menuString bufMenu offsetIntoString =
     (if int (length bufMenu) < usableColumns \<and> offsetIntoString < int (length menuString)
      then copyMenuString menuString (bufMenu @ [menuString ! nat offsetIntoString])
             (offsetIntoString + 1)
      else (bufMenu, offsetIntoString))"
  by pat_completeness auto
termination
  by (relation "measure (\<lambda>(menuString, bufMenu, offsetIntoString).
                            nat (usableColumns - int (length bufMenu)))") auto

function padEnd :: "string \<Rightarrow> string" where
  "padEnd bufMenu =
     (if length bufMenu < NUM_COLUMNS then padEnd (bufMenu @ [CHR '' '']) else bufMenu)"
  by pat_completeness auto
termination
  by (relation "measure (\<lambda>bufMenu. NUM_COLUMNS - length bufMenu)") auto

declare padFront.simps [simp del] copyMenuString.simps [simp del] padEnd.simps [simp del]

text \<open>The row that \<open>updateDisplay\<close> builds in \<open>bufMenu\<close> and hands to \<open>printMenu\<close>.\<close>

definition menuRow :: "FullLcdMenu \<Rightarrow> error + string" where
  "menuRow m =
     (case buildMenuString (lm_menuItems m) 0 (lm_activeMenuIndex m) ([], 0, 0) of
        Inl e \<Rightarrow> Inl e
      | Inr (menuString, offsetToActive, offset) \<Rightarrow>
          (let offsetIntoString = uint offsetToActive - margin m;
               (buf1, offs1) = padFront [] offsetIntoString;
               (buf2, offs2) = copyMenuString menuString buf1 offs1
           in Inr (padEnd buf2)))"

definition updateDisplay :: "FullLcdMenu \<Rightarrow> error + FullLcdMenu" where
  "updateDisplay m =
     (case menuRow m of
        Inl e \<Rightarrow> Inl e
      | Inr bufMenu \<Rightarrow>
          (let m1 = m\<lparr> lm_display := lm_display m @ [SetCursor 0 0],
                       lm_activeRow := 0, lm_activeCol := 0 \<rparr>
           in case printMenu m1 bufMenu of
                Inl e \<Rightarrow> Inl e
              | Inr m2 \<Rightarrow> Inr (setCursor m2 0 1)))"

subsection \<open>setNextActive\<close>

text \<open>
  Modelled from the spec: \<open>adjustWrap\<close> is declared in Utility.hpp and its
  body is not among the sources. The declaration says: adjust the given
  number by the given adjustment, wrap around the limits; limits are
  inclusive. The specification gives \<open>index = (index + 1) mod count\<close> for
  the call in \<open>setNextActive\<close>.
\<close>

definition adjustWrap :: "int \<Rightarrow> int \<Rightarrow> int \<Rightarrow> int \<Rightarrow> int" where
  "adjustWrap current adjustBy minVal maxVal =
     minVal + (current + adjustBy - minVal) mod (maxVal - minVal + 1)"

definition setNextActive :: "FullLcdMenu \<Rightarrow> error + FullLcdMenu" where
  "setNextActive m =
     (let m1 = m\<lparr> lm_activeMenuIndex :=
                    word_of_int (adjustWrap (uint (lm_activeMenuIndex m)) 1 0
                                   (int (numMenuItems m) - 1)) \<rparr>
      in case updateDisplay m1 of
           Inl e \<Rightarrow> Inl e
         | Inr m2 \<Rightarrow>
             Inr (m2\<lparr> lm_display := lm_display m2 @ [SetCursor 0 1]
                          @ replicate NUM_COLUMNS (PrintChar CHR '' '') \<rparr>))"

text \<open>\<open>setNextActive\<close> called \<open>n\<close> times in succession.\<close>

fun setNextActive_times :: "nat \<Rightarrow> FullLcdMenu \<Rightarrow> error + FullLcdMenu" where
  "setNextActive_times 0 m = Inr m"
| "setNextActive_times (Suc n) m =
     (case setNextActive m of Inl e \<Rightarrow> Inl e | Inr m' \<Rightarrow> setNextActive_times n m')"

section \<open>Notions used to state the properties\<close>

subsection \<open>Sequences of polls\<close>

text \<open>
  \<open>sustained k rs\<close>: the consecutive polls \<open>rs\<close> all read the raw key \<open>k\<close>, and
  the millisecond counter at the last of them is more than \<open>DEBOUNCE_PERIOD\<close>
  past the counter at the first. Durations are the ones the device can measure:
  differences of the 32-bit counter.
\<close>

definition sustained :: "byte \<Rightarrow> poll list \<Rightarrow> bool" where
  "sustained k rs \<longleftrightarrow>
     rs \<noteq> [] \<and> (\<forall>r\<in>set rs. rawKey r = k) \<and>
     DEBOUNCE_PERIOD < millis (last rs) - millis (hd rs)"

text \<open>
  \<open>other_key_sustained K qs\<close>: somewhere in the sequence \<open>qs\<close> a raw key different
  from \<open>K\<close> is sustained.
\<close>

definition other_key_sustained :: "byte \<Rightarrow> poll list \<Rightarrow> bool" where
  "other_key_sustained K qs \<longleftrightarrow>
     (\<exists>pre rs post k. qs = pre @ rs @ post \<and> k \<noteq> K \<and> sustained k rs)"

text \<open>
  The invariant of a sequence of polls \<open>qs\<close> that starts right after a commit of
  \<open>K\<close>, used in the proof of the hold property: the committed key is still \<open>K\<close>
  unless another key has been sustained, and the debounce timer belongs to the
  run of equal raw keys that ends the sequence.
\<close>

definition hold_inv :: "byte \<Rightarrow> poll list \<Rightarrow> KeypadDevice \<Rightarrow> bool" where
  "hold_inv K qs s' \<longleftrightarrow>
     (kp_newKey s' = K \<or> other_key_sustained K qs) \<and>
     ((kp_lastKey s' = K \<and> (\<forall>q\<in>set qs. rawKey q = K)) \<or>
      (\<exists>pre rs. qs = pre @ rs \<and> rs \<noteq> [] \<and> (\<forall>r\<in>set rs. rawKey r = kp_lastKey s') \<and>
         kp_lastKeyChange s' = millis (hd rs)))"

subsection \<open>Sequences of keyChanged calls\<close>

text \<open>The return values of successive \<open>keyChanged\<close> calls, one hardware reading per call.\<close>

fun keyChangedCalls :: "KeypadDevice \<Rightarrow> byte \<Rightarrow> poll list \<Rightarrow> bool list" where
  "keyChangedCalls s out [] = []"
| "keyChangedCalls s out (p # ps) =
     (case keyChanged s p out of (s', out', r) \<Rightarrow> r # keyChangedCalls s' out' ps)"

text \<open>The number of polls of a sequence at which the committed key changes.\<close>

fun committedTransitions :: "KeypadDevice \<Rightarrow> poll list \<Rightarrow> nat" where
  "committedTransitions s [] = 0"
| "committedTransitions s (p # ps) =
     (if kp_newKey (debounceKeypad s p) \<noteq> kp_newKey s then 1 else 0)
       + committedTransitions (debounceKeypad s p) ps"

subsection \<open>An example menu\<close>

text \<open>
  The menu with the items A, BB and CCC (identifiers 1, 2, 3) after
  \<open>setActive(3)\<close>, before anything has been displayed.
\<close>

definition menuABC :: FullLcdMenu where
  "menuABC =
     \<lparr> lm_maxItems = 10,
       lm_menuItems = [\<lparr> mi_display = ''A'', mi_id = 1 \<rparr>, \<lparr> mi_display = ''BB'', mi_id = 2 \<rparr>,
                       \<lparr> mi_display = ''CCC'', mi_id = 3 \<rparr>],
       lm_activeMenuIndex = 2, lm_longestDisplay = 3, lm_activeRow = 255, lm_activeCol = 255,
       lm_lastDisplay = (\<lambda>row. []), lm_display = [] \<rparr>"

text \<open>
  \<open>blank_padded w row\<close>: the row consists of \<open>w\<close> with nothing but blanks to its
  left and to its right.
\<close>

definition blank_padded :: "string \<Rightarrow> string \<Rightarrow> bool" where
  "blank_padded w row \<longleftrightarrow>
     (\<exists>l r. row = l @ w @ r \<and> set l \<subseteq> {CHR '' ''} \<and> set r \<subseteq> {CHR '' ''})"

text \<open>
  \<open>centred width w row\<close>: \<open>w\<close> stands in the row with equal space to its left and to
  its right within the first \<open>width\<close> columns, up to a column when the space is odd.
\<close>

definition centred :: "nat \<Rightarrow> string \<Rightarrow> string \<Rightarrow> bool" where
  "centred width w row \<longleftrightarrow>
     take (length w) (drop ((width - length w) div 2) row) = w \<or>
     take (length w) (drop ((width - length w + 1) div 2) row) = w"

text \<open>
  The example menu after \<open>setCursor(0, 1)\<close> and a \<open>printMenu\<close> of a submenu line
  of 16 characters on row 1.
\<close>

definition menuRA :: FullLcdMenu where
  "menuRA = projr (printMenu (setCursor menuABC 0 1) ''RA: 12h 34m 56s '')"

subsection \<open>Coherence of the row cache\<close>

text \<open>
  \<open>cache_coherent m\<close>: on every row, the display shows the cached string of the
  row, padded with blanks to \<open>NUM_COLUMNS\<close>.
\<close>

definition cache_coherent :: "FullLcdMenu \<Rightarrow> bool" where
  "cache_coherent m \<longleftrightarrow>
     (\<forall>row\<in>set [0..<NUM_ROWS].
        shownRow (lm_display m) row =
          lm_lastDisplay m row @ replicate (NUM_COLUMNS - length (lm_lastDisplay m row)) (CHR '' ''))"

subsection \<open>The rendered row in closed form\<close>

text \<open>
  The row that the three buffer loops of \<open>updateDisplay\<close> produce from the menu
  string and the initial \<open>offsetIntoString\<close>: front padding, a window of the menu
  string, end padding.
\<close>

definition rowOf :: "string \<Rightarrow> int \<Rightarrow> string" where
  "rowOf menuString offs =
     (let front = replicate (nat (- offs)) (CHR '' '');
          window = take (nat usableColumns - length front) (drop (nat (max offs 0)) menuString)
      in (front @ window) @ replicate (NUM_COLUMNS - length (front @ window)) (CHR '' ''))"

text \<open>An item as \<open>sprintf\<close> writes it: the label between two markers.\<close>

definition wrapped :: "bool \<Rightarrow> MenuItem \<Rightarrow> string" where
  "wrapped isActive item =
     (if isActive then CHR ''>'' else CHR '' '') # mi_display item
       @ [if isActive then CHR ''<'' else CHR '' '']"

subsection \<open>Reserved characters\<close>

text \<open>The eight reserved characters, in the order of enum \<open>SpecialSymbols\<close>.\<close>

definition reservedChars :: string where
  "reservedChars = [CHR ''@'', CHR 0x27, CHR ''<'', CHR ''>'', CHR ''^'', CHR ''~'', CHR ''`'', CHR ''&'']"

section \<open>Properties of the keypad device\<close>

subsection \<open>Implicit frame condition of keyChanged\<close>

text \<open>
  C10. Whenever \<open>keyChanged(pNewKey)\<close> returns false the byte behind
  \<open>pNewKey\<close> is left as it was; it is written, with the committed key of the
  state after the call, exactly when the function returns true.
\<close>

theorem keyChanged_out_param:
  "keyChanged s p out = (s', out', r) \<Longrightarrow>
     (\<not> r \<longrightarrow> out' = out) \<and> (r \<longrightarrow> out' = kp_newKey s')"
  by (auto simp: keyChanged_def debounceKeypad_def Let_def split: if_splits)

theorem keyChanged_out_param_witness:
  "keyChanged KeypadDevice_init \<lparr> rawKey = btnRIGHT, analogValue = 0, millis = 10 \<rparr> 7
     = (\<lparr> kp_currentKey = 1, kp_analogKeyValue = 0, kp_lastKeyChange = 10,
          kp_lastKey = 1, kp_newKey = 255, kp_lastNewKey = 255 \<rparr>, 255, True) \<and>
   kp_newKey \<lparr> kp_currentKey = 1, kp_analogKeyValue = 0, kp_lastKeyChange = 10,
          kp_lastKey = 1, kp_newKey = 255, kp_lastNewKey = 255 \<rparr> = 255 \<and>
   keyChanged \<lparr> kp_currentKey = 1, kp_analogKeyValue = 0, kp_lastKeyChange = 10,
          kp_lastKey = 1, kp_newKey = 255, kp_lastNewKey = 255 \<rparr>
       \<lparr> rawKey = btnRIGHT, analogValue = 0, millis = 12 \<rparr> 7
     = (\<lparr> kp_currentKey = 1, kp_analogKeyValue = 0, kp_lastKeyChange = 10,
          kp_lastKey = 1, kp_newKey = 255, kp_lastNewKey = 255 \<rparr>, 7, False)"
proof -
  let ?s1 = "\<lparr> kp_currentKey = 1, kp_analogKeyValue = 0, kp_lastKeyChange = 10,
          kp_lastKey = 1, kp_newKey = 255, kp_lastNewKey = 255 \<rparr> :: KeypadDevice"
  have e1: "keyChanged KeypadDevice_init \<lparr> rawKey = btnRIGHT, analogValue = 0, millis = 10 \<rparr> 7
     = (?s1, 255, True)"
    by (simp add: keyChanged_def debounceKeypad_def KeypadDevice_init_def btnRIGHT_def Let_def)
  have e2: "keyChanged ?s1 \<lparr> rawKey = btnRIGHT, analogValue = 0, millis = 12 \<rparr> 7 = (?s1, 7, False)"
    by (simp add: keyChanged_def debounceKeypad_def btnRIGHT_def DEBOUNCE_PERIOD_def Let_def)
  from keyChanged_out_param [OF e1] have "kp_newKey ?s1 = 255" by simp
  moreover from keyChanged_out_param [OF e2] have "(7::byte) = 7" by simp
  ultimately show ?thesis using e1 e2 by simp
qed

subsection \<open>Debounce: commit and hold\<close>

lemma fst_currentKey [simp]: "fst (currentKey s p) = debounceKeypad s p"
  by (simp add: currentKey_def Let_def)

lemma snd_currentKey [simp]: "snd (currentKey s p) = kp_newKey (debounceKeypad s p)"
  by (simp add: currentKey_def Let_def)

lemma pollKeys_append: "pollKeys s (ps @ qs) = pollKeys (pollKeys s ps) qs"
  by (induction ps arbitrary: s) simp_all

lemma currentKeys_append:
  "currentKeys s (ps @ qs) = currentKeys s ps @ currentKeys (pollKeys s ps) qs"
  by (induction ps arbitrary: s) simp_all

lemma last_currentKeys:
  "ps \<noteq> [] \<Longrightarrow> last (currentKeys s ps) = kp_newKey (pollKeys s ps)"
  by (induction ps arbitrary: s rule: rev_induct) (simp_all add: currentKeys_append pollKeys_append)

lemma debounce_same_key:
  assumes "kp_lastKey s = rawKey p"
  shows "kp_lastKey (debounceKeypad s p) = rawKey p"
    and "kp_lastKeyChange (debounceKeypad s p) = kp_lastKeyChange s"
    and "DEBOUNCE_PERIOD < millis p - kp_lastKeyChange s \<Longrightarrow> kp_newKey (debounceKeypad s p) = rawKey p"
    and "kp_newKey (debounceKeypad s p) = rawKey p \<or> kp_newKey (debounceKeypad s p) = kp_newKey s"
  using assms by (simp_all add: debounceKeypad_def Let_def)

lemma debounce_other_key:
  assumes "kp_lastKey s \<noteq> rawKey p"
  shows "kp_lastKey (debounceKeypad s p) = rawKey p"
    and "kp_lastKeyChange (debounceKeypad s p) = millis p"
    and "kp_newKey (debounceKeypad s p) = kp_newKey s"
  using assms by (simp_all add: debounceKeypad_def Let_def)

lemma commit_at_end:
  "kp_lastKey s = K \<Longrightarrow> ps \<noteq> [] \<Longrightarrow> \<forall>p\<in>set ps. rawKey p = K \<Longrightarrow>
   DEBOUNCE_PERIOD < millis (last ps) - kp_lastKeyChange s \<Longrightarrow>
   kp_newKey (pollKeys s ps) = K \<and> kp_lastKey (pollKeys s ps) = K"
proof (induction ps arbitrary: s)
  case Nil
  then show ?case by simp
next
  case (Cons p ps)
  have same: "kp_lastKey s = rawKey p" using Cons.prems by simp
  show ?case
  proof (cases "ps = []")
    case True
    then show ?thesis using Cons.prems debounce_same_key [OF same] by simp
  next
    case False
    have "kp_newKey (pollKeys (debounceKeypad s p) ps) = K \<and> kp_lastKey (pollKeys (debounceKeypad s p) ps) = K"
      using Cons.prems False debounce_same_key(1,2) [OF same]
      by (intro Cons.IH) simp_all
    then show ?thesis by simp
  qed
qed

lemma commit_run:
  assumes "kp_lastKey s \<noteq> K" and "sustained K ps"
  shows "kp_newKey (pollKeys s ps) = K \<and> kp_lastKey (pollKeys s ps) = K"
proof -
  from assms(2) obtain p0 mid where ps: "ps = p0 # mid"
    by (cases ps) (auto simp: sustained_def)
  have all: "\<forall>r\<in>set ps. rawKey r = K" using assms(2) by (simp add: sustained_def)
  have gap: "DEBOUNCE_PERIOD < millis (last ps) - millis (hd ps)"
    using assms(2) by (simp add: sustained_def)
  have mid: "mid \<noteq> []"
  proof
    assume "mid = []"
    with gap ps show False by simp
  qed
  have other: "kp_lastKey s \<noteq> rawKey p0" using assms(1) all ps by simp
  have "kp_newKey (pollKeys (debounceKeypad s p0) mid) = K \<and> kp_lastKey (pollKeys (debounceKeypad s p0) mid) = K"
  proof (rule commit_at_end)
    show "kp_lastKey (debounceKeypad s p0) = K"
      using debounce_other_key(1) [OF other] all ps by simp
    show "mid \<noteq> []" by (rule mid)
    show "\<forall>p\<in>set mid. rawKey p = K" using all ps by simp
    show "DEBOUNCE_PERIOD < millis (last mid) - kp_lastKeyChange (debounceKeypad s p0)"
      using gap ps mid debounce_other_key(2) [OF other] by simp
  qed
  then show ?thesis by (simp add: ps)
qed


lemma other_key_sustained_append:
  "other_key_sustained K qs \<Longrightarrow> other_key_sustained K (qs @ rest)"
proof -
  assume "other_key_sustained K qs"
  then obtain pre rs post k where "qs = pre @ rs @ post" "k \<noteq> K" "sustained k rs"
    by (auto simp: other_key_sustained_def)
  then have "qs @ rest = pre @ rs @ (post @ rest) \<and> k \<noteq> K \<and> sustained k rs" by simp
  then show ?thesis unfolding other_key_sustained_def by blast
qed

lemma hold_inv_step:
  assumes inv: "hold_inv K qs s'"
  shows "hold_inv K (qs @ [q]) (debounceKeypad s' q)"
proof (cases "kp_lastKey s' = rawKey q")
  case False
  note d = debounce_other_key [OF False]
  have "kp_newKey (debounceKeypad s' q) = K \<or> other_key_sustained K (qs @ [q])"
    using inv d(3) other_key_sustained_append unfolding hold_inv_def by auto
  moreover have "\<exists>pre rs. qs @ [q] = pre @ rs \<and> rs \<noteq> [] \<and>
      (\<forall>r\<in>set rs. rawKey r = kp_lastKey (debounceKeypad s' q)) \<and>
      kp_lastKeyChange (debounceKeypad s' q) = millis (hd rs)"
    using d(1,2) by (intro exI [of _ qs] exI [of _ "[q]"]) simp
  ultimately show ?thesis unfolding hold_inv_def by blast
next
  case True
  note d = debounce_same_key [OF True]
  from inv have "(kp_lastKey s' = K \<and> (\<forall>q\<in>set qs. rawKey q = K)) \<or>
      (\<exists>pre rs. qs = pre @ rs \<and> rs \<noteq> [] \<and> (\<forall>r\<in>set rs. rawKey r = kp_lastKey s') \<and>
         kp_lastKeyChange s' = millis (hd rs))"
    unfolding hold_inv_def by blast
  then show ?thesis
  proof
    assume a: "kp_lastKey s' = K \<and> (\<forall>q\<in>set qs. rawKey q = K)"
    then have k: "rawKey q = K" using True by simp
    have "kp_newKey (debounceKeypad s' q) = K \<or> other_key_sustained K (qs @ [q])"
      using inv d(4) k other_key_sustained_append unfolding hold_inv_def by auto
    moreover have "kp_lastKey (debounceKeypad s' q) = K \<and> (\<forall>r\<in>set (qs @ [q]). rawKey r = K)"
      using a k d(1) by simp
    ultimately show ?thesis unfolding hold_inv_def by blast
  next
    assume "\<exists>pre rs. qs = pre @ rs \<and> rs \<noteq> [] \<and> (\<forall>r\<in>set rs. rawKey r = kp_lastKey s') \<and>
         kp_lastKeyChange s' = millis (hd rs)"
    then obtain pre rs where run: "qs = pre @ rs" "rs \<noteq> []"
        "\<forall>r\<in>set rs. rawKey r = kp_lastKey s'" "kp_lastKeyChange s' = millis (hd rs)"
      by blast
    let ?rs = "rs @ [q]"
    have run': "qs @ [q] = pre @ ?rs" "?rs \<noteq> []"
        "\<forall>r\<in>set ?rs. rawKey r = kp_lastKey (debounceKeypad s' q)"
        "kp_lastKeyChange (debounceKeypad s' q) = millis (hd ?rs)"
      using run True d(1,2) by simp_all
    have "kp_newKey (debounceKeypad s' q) = K \<or> other_key_sustained K (qs @ [q])"
    proof (cases "DEBOUNCE_PERIOD < millis q - kp_lastKeyChange s'")
      case False
      then have "kp_newKey (debounceKeypad s' q) = kp_newKey s'"
        using True by (simp add: debounceKeypad_def Let_def)
      then show ?thesis
        using inv other_key_sustained_append unfolding hold_inv_def by auto
    next
      case gap: True
      show ?thesis
      proof (cases "rawKey q = K")
        case True
        then show ?thesis using d(3) [OF gap] by simp
      next
        case False
        have "sustained (rawKey q) ?rs"
          using run True gap unfolding sustained_def by simp
        then have "qs @ [q] = pre @ ?rs @ [] \<and> rawKey q \<noteq> K \<and> sustained (rawKey q) ?rs"
          using run(1) False by simp
        then have "other_key_sustained K (qs @ [q])"
          unfolding other_key_sustained_def by blast
        then show ?thesis by simp
      qed
    qed
    then show ?thesis using run' unfolding hold_inv_def by blast
  qed
qed

lemma hold_inv_polls:
  assumes "kp_newKey s = K" and "kp_lastKey s = K"
  shows "hold_inv K qs (pollKeys s qs)"
proof (induction qs rule: rev_induct)
  case Nil
  show ?case using assms by (simp add: hold_inv_def)
next
  case (snoc q qs)
  then show ?case using hold_inv_step [of K qs "pollKeys s qs" q]
    by (simp add: pollKeys_append)
qed

lemma hold_after_commit:
  assumes "kp_newKey s = K" and "kp_lastKey s = K" and "\<not> other_key_sustained K qs"
  shows "\<forall>k\<in>set (currentKeys s qs). k = K"
  using assms(3)
proof (induction qs rule: rev_induct)
  case Nil
  show ?case by simp
next
  case (snoc q qs)
  have no: "\<not> other_key_sustained K qs"
    using snoc.prems other_key_sustained_append by blast
  have "hold_inv K (qs @ [q]) (pollKeys s (qs @ [q]))"
    using assms(1,2) by (rule hold_inv_polls)
  then have "kp_newKey (pollKeys s (qs @ [q])) = K"
    using snoc.prems unfolding hold_inv_def by blast
  then show ?case using snoc.IH [OF no]
    by (simp add: currentKeys_append pollKeys_append)
qed

text \<open>
  C1. Debounce commit and hold. Let the polls \<open>ps\<close> start with a change of the
  raw key to \<open>K\<close> and read \<open>K\<close> every time, the last of them more than
  \<open>DEBOUNCE_PERIOD\<close> after the first. Then the \<open>currentKey()\<close> call of the last
  poll returns \<open>K\<close>, and every later \<open>currentKey()\<close> call returns \<open>K\<close> as long
  as no different raw key has been read unchanged for longer than
  \<open>DEBOUNCE_PERIOD\<close>.
\<close>

theorem debounce_commit_and_hold:
  assumes "kp_lastKey s \<noteq> K" and "sustained K ps"
  shows "last (currentKeys s ps) = K \<and>
         (\<forall>qs. \<not> other_key_sustained K qs \<longrightarrow>
                (\<forall>k\<in>set (currentKeys (pollKeys s ps) qs). k = K))"
proof -
  have c: "kp_newKey (pollKeys s ps) = K \<and> kp_lastKey (pollKeys s ps) = K"
    using assms by (rule commit_run)
  have "ps \<noteq> []" using assms(2) by (simp add: sustained_def)
  then have "last (currentKeys s ps) = K" using c by (simp add: last_currentKeys)
  moreover have "\<forall>qs. \<not> other_key_sustained K qs \<longrightarrow>
                (\<forall>k\<in>set (currentKeys (pollKeys s ps) qs). k = K)"
    using c hold_after_commit by blast
  ultimately show ?thesis by simp
qed

theorem debounce_commit_and_hold_witness:
  "kp_lastKey KeypadDevice_init \<noteq> btnRIGHT \<and>
   sustained btnRIGHT [\<lparr> rawKey = btnRIGHT, analogValue = 0, millis = 10 \<rparr>,
                       \<lparr> rawKey = btnRIGHT, analogValue = 0, millis = 20 \<rparr>] \<and>
   last (currentKeys KeypadDevice_init
          [\<lparr> rawKey = btnRIGHT, analogValue = 0, millis = 10 \<rparr>,
           \<lparr> rawKey = btnRIGHT, analogValue = 0, millis = 20 \<rparr>]) = btnRIGHT \<and>
   \<not> other_key_sustained btnRIGHT [\<lparr> rawKey = btnUP, analogValue = 0, millis = 21 \<rparr>,
                                   \<lparr> rawKey = btnRIGHT, analogValue = 0, millis = 30 \<rparr>] \<and>
   set (currentKeys
          (pollKeys KeypadDevice_init
             [\<lparr> rawKey = btnRIGHT, analogValue = 0, millis = 10 \<rparr>,
              \<lparr> rawKey = btnRIGHT, analogValue = 0, millis = 20 \<rparr>])
          [\<lparr> rawKey = btnUP, analogValue = 0, millis = 21 \<rparr>,
           \<lparr> rawKey = btnRIGHT, analogValue = 0, millis = 30 \<rparr>]) \<subseteq> {btnRIGHT}"
proof -
  let ?p1 = "\<lparr> rawKey = btnRIGHT, analogValue = 0, millis = 10 \<rparr>"
  let ?p2 = "\<lparr> rawKey = btnRIGHT, analogValue = 0, millis = 20 \<rparr>"
  let ?q1 = "\<lparr> rawKey = btnUP, analogValue = 0, millis = 21 \<rparr>"
  let ?q2 = "\<lparr> rawKey = btnRIGHT, analogValue = 0, millis = 30 \<rparr>"
  have h1: "kp_lastKey KeypadDevice_init \<noteq> btnRIGHT"
    by (simp add: KeypadDevice_init_def btnRIGHT_def)
  have h2: "sustained btnRIGHT [?p1, ?p2]"
    by (simp add: sustained_def DEBOUNCE_PERIOD_def)
  have h3: "\<not> other_key_sustained btnRIGHT [?q1, ?q2]"
  proof
    assume "other_key_sustained btnRIGHT [?q1, ?q2]"
    then obtain pre rs post k where
      split: "[?q1, ?q2] = pre @ rs @ post" and k: "k \<noteq> btnRIGHT" and sus: "sustained k rs"
      unfolding other_key_sustained_def by blast
    from sus have ne: "rs \<noteq> []" and all: "\<forall>r\<in>set rs. rawKey r = k"
      and gap: "DEBOUNCE_PERIOD < millis (last rs) - millis (hd rs)"
      unfolding sustained_def by simp_all
    from split ne have "rs = [?q1] \<or> rs = [?q2] \<or> rs = [?q1, ?q2]"
      by (auto simp: append_eq_Cons_conv Cons_eq_append_conv)
    then show False
      using k all gap by (auto simp: btnRIGHT_def btnUP_def DEBOUNCE_PERIOD_def)
  qed
  from debounce_commit_and_hold [OF h1 h2] h3
  have "last (currentKeys KeypadDevice_init [?p1, ?p2]) = btnRIGHT"
    and "\<forall>k\<in>set (currentKeys (pollKeys KeypadDevice_init [?p1, ?p2]) [?q1, ?q2]). k = btnRIGHT"
    by blast+
  then show ?thesis using h1 h2 h3 by blast
qed

subsection \<open>Edge one-shot\<close>

lemma debounce_lastNewKey [simp]: "kp_lastNewKey (debounceKeypad s p) = kp_lastNewKey s"
  by (simp add: debounceKeypad_def Let_def)

lemma pollKeys_lastNewKey [simp]: "kp_lastNewKey (pollKeys s ps) = kp_lastNewKey s"
  by (induction ps arbitrary: s) simp_all

lemma debounce_update_lastNewKey:
  "debounceKeypad (s\<lparr> kp_lastNewKey := x \<rparr>) p = (debounceKeypad s p)\<lparr> kp_lastNewKey := x \<rparr>"
  by (simp add: debounceKeypad_def Let_def)

lemma committedTransitions_update_lastNewKey:
  "committedTransitions (s\<lparr> kp_lastNewKey := x \<rparr>) ps = committedTransitions s ps"
  by (induction ps arbitrary: s) (simp_all add: debounce_update_lastNewKey)

lemma keyChanged_cases:
  assumes "keyChanged s p out = (s', out', r)"
  shows "r \<longleftrightarrow> kp_newKey (debounceKeypad s p) \<noteq> kp_lastNewKey s"
    and "kp_newKey s' = kp_newKey (debounceKeypad s p)"
    and "kp_lastNewKey s' = kp_newKey s'"
    and "s' = (debounceKeypad s p)\<lparr> kp_lastNewKey := kp_newKey (debounceKeypad s p) \<rparr>"
  using assms by (auto simp: keyChanged_def Let_def split: if_splits)

lemma keyChanged_next_call:
  assumes first: "keyChanged s p out = (s1, out1, r1)"
    and nxt: "keyChanged (pollKeys s1 others) q out3 = (s2, out2, r2)"
  shows "r2 \<longleftrightarrow> kp_newKey s2 \<noteq> kp_newKey s1"
proof -
  have "kp_lastNewKey (pollKeys s1 others) = kp_newKey s1"
    using keyChanged_cases(3) [OF first] by simp
  then show ?thesis
    using keyChanged_cases(1,2) [OF nxt] by simp
qed

lemma keyChangedCalls_count:
  "kp_lastNewKey s = kp_newKey s \<Longrightarrow>
   count_list (keyChangedCalls s out ps) True = committedTransitions s ps"
proof (induction ps arbitrary: s out)
  case Nil
  show ?case by simp
next
  case (Cons p ps)
  obtain s' out' r where kc: "keyChanged s p out = (s', out', r)"
    by (cases "keyChanged s p out") auto
  note c = keyChanged_cases [OF kc]
  have r: "r \<longleftrightarrow> kp_newKey (debounceKeypad s p) \<noteq> kp_newKey s"
    using c(1) Cons.prems by simp
  have "count_list (keyChangedCalls s' out' ps) True = committedTransitions s' ps"
    using c(3) by (rule Cons.IH)
  also have "committedTransitions s' ps = committedTransitions (debounceKeypad s p) ps"
    by (subst c(4)) (rule committedTransitions_update_lastNewKey)
  finally show ?case using kc r by simp
qed

text \<open>
  C3. Edge one-shot. After any call of \<open>keyChanged\<close>, the next call of
  \<open>keyChanged\<close> (whatever polls other accessors make in between) returns
  true exactly when the committed key then differs from the committed key at
  the earlier call: it returns false when the committed key has not changed,
  and true only after a change. In a sequence of \<open>keyChanged\<close> calls the number
  of true results is the number of polls at which the committed key changed,
  so there is at most one per transition.
\<close>

theorem keyChanged_one_shot:
  assumes "keyChanged s p out = (s1, out1, r1)"
  shows "(\<forall>others q out3 s2 out2 r2.
            keyChanged (pollKeys s1 others) q out3 = (s2, out2, r2) \<longrightarrow>
            (r2 \<longleftrightarrow> kp_newKey s2 \<noteq> kp_newKey s1)) \<and>
         count_list (keyChangedCalls s1 out1 ps) True = committedTransitions s1 ps"
  using assms keyChanged_next_call [OF assms] keyChangedCalls_count [OF keyChanged_cases(3) [OF assms]]
  by blast

theorem keyChanged_one_shot_witness:
  "keyChanged KeypadDevice_init \<lparr> rawKey = btnRIGHT, analogValue = 0, millis = 10 \<rparr> 7
     = (\<lparr> kp_currentKey = 1, kp_analogKeyValue = 0, kp_lastKeyChange = 10,
          kp_lastKey = 1, kp_newKey = 255, kp_lastNewKey = 255 \<rparr>, 255, True) \<and>
   keyChanged (pollKeys \<lparr> kp_currentKey = 1, kp_analogKeyValue = 0, kp_lastKeyChange = 10,
          kp_lastKey = 1, kp_newKey = 255, kp_lastNewKey = 255 \<rparr> [])
       \<lparr> rawKey = btnRIGHT, analogValue = 0, millis = 12 \<rparr> 255
     = (\<lparr> kp_currentKey = 1, kp_analogKeyValue = 0, kp_lastKeyChange = 10,
          kp_lastKey = 1, kp_newKey = 255, kp_lastNewKey = 255 \<rparr>, 255, False) \<and>
   keyChangedCalls \<lparr> kp_currentKey = 1, kp_analogKeyValue = 0, kp_lastKeyChange = 10,
          kp_lastKey = 1, kp_newKey = 255, kp_lastNewKey = 255 \<rparr> 255
       [\<lparr> rawKey = btnRIGHT, analogValue = 0, millis = 12 \<rparr>,
        \<lparr> rawKey = btnRIGHT, analogValue = 0, millis = 20 \<rparr>,
        \<lparr> rawKey = btnRIGHT, analogValue = 0, millis = 22 \<rparr>] = [False, True, False] \<and>
   committedTransitions \<lparr> kp_currentKey = 1, kp_analogKeyValue = 0, kp_lastKeyChange = 10,
          kp_lastKey = 1, kp_newKey = 255, kp_lastNewKey = 255 \<rparr>
       [\<lparr> rawKey = btnRIGHT, analogValue = 0, millis = 12 \<rparr>,
        \<lparr> rawKey = btnRIGHT, analogValue = 0, millis = 20 \<rparr>,
        \<lparr> rawKey = btnRIGHT, analogValue = 0, millis = 22 \<rparr>] = 1"
proof -
  let ?s1 = "\<lparr> kp_currentKey = 1, kp_analogKeyValue = 0, kp_lastKeyChange = 10,
          kp_lastKey = 1, kp_newKey = 255, kp_lastNewKey = 255 \<rparr> :: KeypadDevice"
  let ?ps = "[\<lparr> rawKey = btnRIGHT, analogValue = 0, millis = 12 \<rparr>,
        \<lparr> rawKey = btnRIGHT, analogValue = 0, millis = 20 \<rparr>,
        \<lparr> rawKey = btnRIGHT, analogValue = 0, millis = 22 \<rparr>]"
  have e1: "keyChanged KeypadDevice_init \<lparr> rawKey = btnRIGHT, analogValue = 0, millis = 10 \<rparr> 7
     = (?s1, 255, True)"
    by (simp add: keyChanged_def debounceKeypad_def KeypadDevice_init_def btnRIGHT_def Let_def)
  obtain s2 out2 r2 where e2:
    "keyChanged (pollKeys ?s1 []) \<lparr> rawKey = btnRIGHT, analogValue = 0, millis = 12 \<rparr> 255 = (s2, out2, r2)"
    by (cases "keyChanged (pollKeys ?s1 []) \<lparr> rawKey = btnRIGHT, analogValue = 0, millis = 12 \<rparr> 255") auto
  have calls: "keyChangedCalls ?s1 255 ?ps = [False, True, False]"
    by (simp add: keyChanged_def debounceKeypad_def btnRIGHT_def DEBOUNCE_PERIOD_def Let_def)
  note t = keyChanged_one_shot [OF e1, of ?ps]
  from t e2 have "r2 \<longleftrightarrow> kp_newKey s2 \<noteq> kp_newKey ?s1" by blast
  moreover have "s2 = ?s1"
    using e2 by (simp add: keyChanged_def debounceKeypad_def btnRIGHT_def DEBOUNCE_PERIOD_def Let_def)
  moreover have "out2 = 255"
    using e2 by (simp add: keyChanged_def debounceKeypad_def btnRIGHT_def DEBOUNCE_PERIOD_def Let_def)
  ultimately have e2': "keyChanged (pollKeys ?s1 []) \<lparr> rawKey = btnRIGHT, analogValue = 0, millis = 12 \<rparr> 255
      = (?s1, 255, False)"
    using e2 by simp
  from t calls have "committedTransitions ?s1 ?ps = 1" by simp
  then show ?thesis using e1 e2' calls by simp
qed

section \<open>Properties of the menu\<close>

subsection \<open>addItem\<close>

text \<open>
  A menu filled through \<open>addItem\<close> never holds more items than the array has
  entries, so \<open>_numMenuItems\<close> fits its byte.
\<close>

lemma addItem_capacity:
  assumes "addItem m disp ident = Inr m'"
  shows "numMenuItems m' = numMenuItems m + 1" and "numMenuItems m' \<le> unat (lm_maxItems m')"
    and "numMenuItems m' \<le> 255"
proof -
  have lt: "numMenuItems m < unat (lm_maxItems m)" and
    m': "m' = m\<lparr> lm_menuItems := lm_menuItems m @ [\<lparr> mi_display = disp, mi_id = ident \<rparr>],
                  lm_longestDisplay := of_nat (max (unat (lm_longestDisplay m)) (length disp)) \<rparr>"
    using assms by (auto simp: addItem_def split: if_splits)
  show n: "numMenuItems m' = numMenuItems m + 1" by (simp add: m' numMenuItems_def)
  show c: "numMenuItems m' \<le> unat (lm_maxItems m')" using lt n by (simp add: m')
  have "unat (lm_maxItems m') < 2 ^ LENGTH(8)" by (rule unsigned_less)
  then show "numMenuItems m' \<le> 255" using c by simp
qed

subsection \<open>setActive\<close>

lemma setActive_loop_missing:
  "ident \<notin> mi_id ` set (lm_menuItems m) \<Longrightarrow> setActive_loop m ident i = m"
proof (induction m ident i rule: setActive_loop.induct)
  case (1 m ident i)
  show ?case
  proof (cases "i < numMenuItems m")
    case True
    then have "lm_menuItems m ! i \<in> set (lm_menuItems m)"
      by (simp add: numMenuItems_def)
    then have "mi_id (lm_menuItems m ! i) \<noteq> ident"
      using "1.prems" by blast
    then show ?thesis
      using True "1.IH" "1.prems" by (subst setActive_loop.simps) simp
  next
    case False
    then show ?thesis by (subst setActive_loop.simps) simp
  qed
qed

text \<open>
  C8. \<open>setActive\<close> on a missing identifier is a silent no-op: when no item of
  the menu has the identifier, \<open>setActive\<close> returns the menu unchanged, so the
  active index and the result of \<open>getActive\<close> are what they were. The function
  has no error result.
\<close>

theorem setActive_missing_id:
  "ident \<notin> mi_id ` set (lm_menuItems m) \<Longrightarrow>
     setActive m ident = m \<and> getActive (setActive m ident) = getActive m"
  by (simp add: setActive_def setActive_loop_missing)

text \<open>The example menu is what the constructor, three \<open>addItem\<close> calls and \<open>setActive(3)\<close> produce.\<close>

lemma menuABC_built:
  "(case addItem (FullLcdMenu_init 10) ''A'' 1 of
      Inl e \<Rightarrow> Inl e
    | Inr m1 \<Rightarrow>
        (case addItem m1 ''BB'' 2 of
           Inl e \<Rightarrow> Inl e
         | Inr m2 \<Rightarrow>
             (case addItem m2 ''CCC'' 3 of
                Inl e \<Rightarrow> Inl e
              | Inr m3 \<Rightarrow> Inr (setActive m3 3)))) = Inr menuABC"
  by (simp add: addItem_def FullLcdMenu_init_def numMenuItems_def setActive_def
        setActive_loop.simps menuABC_def)

theorem setActive_missing_id_witness:
  "9 \<notin> mi_id ` set (lm_menuItems menuABC) \<and> setActive menuABC 9 = menuABC \<and>
   getActive (setActive menuABC 9) = Inr 3"
proof -
  have h: "9 \<notin> mi_id ` set (lm_menuItems menuABC)" by (simp add: menuABC_def)
  have g: "getActive menuABC = Inr 3" by (simp add: getActive_def menuABC_def numMenuItems_def)
  from setActive_missing_id [OF h] show ?thesis using h g by simp
qed

subsection \<open>printMenu\<close>

text \<open>
  C6. Differential write skip. With a valid current row and the cursor column
  at 0, \<open>printMenu\<close> called with the text cached for the row returns the menu
  unchanged: no call is added to the display and the cache is as before. In
  particular the second of two consecutive \<open>printMenu\<close> calls with the same
  text changes nothing.
\<close>

theorem printMenu_skip:
  assumes "unat (lm_activeRow m) < NUM_ROWS" and "lm_activeCol m = 0"
  shows "(lm_lastDisplay m (unat (lm_activeRow m)) = line \<longrightarrow> printMenu m line = Inr m) \<and>
         (\<exists>m1. printMenu m line = Inr m1 \<and> printMenu m1 line = Inr m1)"
  using assms by (simp add: printMenu_def Let_def)

theorem printMenu_skip_witness:
  "unat (lm_activeRow (setCursor menuABC 0 1)) < NUM_ROWS \<and>
   lm_activeCol (setCursor menuABC 0 1) = 0 \<and>
   lm_lastDisplay (setCursor menuABC 0 1) (unat (lm_activeRow (setCursor menuABC 0 1))) = [] \<and>
   printMenu (setCursor menuABC 0 1) [] = Inr (setCursor menuABC 0 1) \<and>
   (\<exists>m1. printMenu (setCursor menuABC 0 1) ''RA'' = Inr m1 \<and> printMenu m1 ''RA'' = Inr m1 \<and>
         lm_display m1 = SetCursor 0 1 # map PrintChar ''RA'' @ replicate 14 (PrintChar CHR '' ''))"
proof -
  let ?m = "setCursor menuABC 0 1"
  have h1: "unat (lm_activeRow ?m) < NUM_ROWS" by (simp add: setCursor_def NUM_ROWS_def)
  have h2: "lm_activeCol ?m = 0" by (simp add: setCursor_def)
  have h3: "lm_lastDisplay ?m (unat (lm_activeRow ?m)) = []" by (simp add: setCursor_def menuABC_def)
  from printMenu_skip [OF h1 h2, of "[]"] h3 have a: "printMenu ?m [] = Inr ?m" by blast
  from printMenu_skip [OF h1 h2, of "''RA''"]
  obtain m1 where m1: "printMenu ?m ''RA'' = Inr m1" "printMenu m1 ''RA'' = Inr m1" by blast
  have "lm_display m1 = SetCursor 0 1 # map PrintChar ''RA'' @ replicate 14 (PrintChar CHR '' '')"
    using m1(1) by (auto simp: printMenu_def setCursor_def menuABC_def NUM_ROWS_def NUM_COLUMNS_def Let_def)
  then show ?thesis using h1 h2 h3 a m1 by blast
qed

subsection \<open>updateDisplay\<close>

lemma buildMenuString_ok:
  "\<forall>item\<in>set items. length (mi_display item) \<le> 9 \<Longrightarrow>
   \<exists>r. buildMenuString items i active acc = Inr r"
proof (induction items arbitrary: i acc)
  case Nil
  show ?case by (cases acc) simp
next
  case (Cons item items)
  obtain ms ota off where acc: "acc = (ms, ota, off)" by (cases acc) auto
  have "length (mi_display item) \<le> 9" using Cons.prems by simp
  then show ?case
    using Cons.IH Cons.prems unfolding acc
    by (simp add: scratchBufferSize_def Let_def)
qed

lemma menuRow_ok:
  "\<forall>item\<in>set (lm_menuItems m). length (mi_display item) \<le> 9 \<Longrightarrow> \<exists>row. menuRow m = Inr row"
proof -
  assume "\<forall>item\<in>set (lm_menuItems m). length (mi_display item) \<le> 9"
  then obtain r where "buildMenuString (lm_menuItems m) 0 (lm_activeMenuIndex m) ([], 0, 0) = Inr r"
    using buildMenuString_ok by blast
  then show ?thesis
    by (cases r) (simp add: menuRow_def Let_def split: prod.splits)
qed

lemma updateDisplay_result:
  "menuRow m = Inr row \<Longrightarrow>
   updateDisplay m =
     (case printMenu (m\<lparr> lm_display := lm_display m @ [SetCursor 0 0],
                          lm_activeRow := 0, lm_activeCol := 0 \<rparr>) row of
        Inl e \<Rightarrow> Inl e | Inr m2 \<Rightarrow> Inr (setCursor m2 0 1))"
  by (simp add: updateDisplay_def Let_def)

lemma updateDisplay_ok:
  assumes "\<forall>item\<in>set (lm_menuItems m). length (mi_display item) \<le> 9"
  shows "\<exists>m'. updateDisplay m = Inr m'"
proof -
  obtain row where row: "menuRow m = Inr row" using menuRow_ok [OF assms] by blast
  show ?thesis
    unfolding updateDisplay_result [OF row]
    by (simp add: printMenu_def NUM_ROWS_def Let_def)
qed

lemma updateDisplay_cursor:
  "updateDisplay m = Inr m' \<Longrightarrow> lm_activeRow m' = 1 \<and> lm_activeCol m' = 0"
  by (auto simp: updateDisplay_def setCursor_def Let_def split: sum.splits)

text \<open>
  C7, as the code has it. \<open>updateDisplay\<close> ends with \<open>setCursor(0, 1)\<close>: whenever
  it returns, the menu's cursor is at column 0 of row 1, the row below the menu.
  It returns whenever every label fits the scratch buffer (at most 9
  characters).
\<close>

theorem updateDisplay_cursor_row1:
  "(updateDisplay m = Inr m' \<longrightarrow> lm_activeRow m' = 1 \<and> lm_activeCol m' = 0) \<and>
   ((\<forall>item\<in>set (lm_menuItems m). length (mi_display item) \<le> 9) \<longrightarrow>
      (\<exists>m1. updateDisplay m = Inr m1))"
  using updateDisplay_cursor updateDisplay_ok by blast

text \<open>
  C7 as stated (the cursor is reset to row 0) fails: on the example menu
  \<open>updateDisplay\<close> returns with the cursor on row 1.
\<close>

theorem updateDisplay_cursor_row0_counterexample:
  "\<not> isl (updateDisplay menuABC) \<and> lm_activeRow (projr (updateDisplay menuABC)) = 1 \<and>
   lm_activeRow (projr (updateDisplay menuABC)) \<noteq> 0"
proof -
  have "\<forall>item\<in>set (lm_menuItems menuABC). length (mi_display item) \<le> 9"
    by (simp add: menuABC_def)
  then obtain m' where m': "updateDisplay menuABC = Inr m'"
    using updateDisplay_ok by blast
  then show ?thesis using updateDisplay_cursor [OF m'] by simp
qed

theorem updateDisplay_cursor_row1_witness:
  "list_all (\<lambda>item. length (mi_display item) \<le> 9) (lm_menuItems menuABC) \<and>
   \<not> isl (updateDisplay menuABC) \<and>
   lm_activeRow (projr (updateDisplay menuABC)) = 1 \<and>
   lm_activeCol (projr (updateDisplay menuABC)) = 0"
proof -
  have h: "\<forall>item\<in>set (lm_menuItems menuABC). length (mi_display item) \<le> 9"
    by (simp add: menuABC_def)
  from updateDisplay_cursor_row1 [of menuABC] h
  obtain m1 where m1: "updateDisplay menuABC = Inr m1" by blast
  from updateDisplay_cursor_row1 [of menuABC m1] m1
  have "lm_activeRow m1 = 1 \<and> lm_activeCol m1 = 0" by blast
  then show ?thesis using m1 h by (simp add: list_all_iff)
qed

subsection \<open>The rendered row of the example menu\<close>

lemma menuRow_menuABC: "menuRow menuABC = Inr ''A  BB >CCC<     ''"
  by (simp add: menuRow_def menuABC_def margin_def c_div_def usableColumns_def NUM_COLUMNS_def
        scratchBufferSize_def padFront.simps copyMenuString.simps padEnd.simps Let_def)

text \<open>
  C2 as stated fails: the row rendered for A, BB, CCC with CCC active is not
  \<open>>CCC<\<close> padded with blanks on both sides, since the columns to its left show
  the preceding items; and \<open>>CCC<\<close>, which starts at column 6, does not stand in
  the middle of the 15 usable columns (that would be column 5).
\<close>

theorem menuRow_centering_counterexample:
  "menuRow menuABC = Inr ''A  BB >CCC<     '' \<and>
   \<not> blank_padded ''>CCC<'' ''A  BB >CCC<     '' \<and>
   \<not> centred 15 ''>CCC<'' ''A  BB >CCC<     ''"
proof -
  have nc: "\<not> centred 15 ''>CCC<'' ''A  BB >CCC<     ''"
    by (simp add: centred_def)
  have "\<not> blank_padded ''>CCC<'' ''A  BB >CCC<     ''"
  proof
    assume "blank_padded ''>CCC<'' ''A  BB >CCC<     ''"
    then obtain l r where eq: "''A  BB >CCC<     '' = l @ ''>CCC<'' @ r"
      and l: "set l \<subseteq> {CHR '' ''}"
      unfolding blank_padded_def by blast
    show False
    proof (cases l)
      case Nil
      with eq show False by simp
    next
      case (Cons x xs)
      with eq have "x = CHR ''A''" by simp
      with Cons l show False by simp
    qed
  qed
  then show ?thesis using menuRow_menuABC nc by simp
qed

text \<open>
  C2, as the code has it. For the items A, BB, CCC on the 16-column display with
  CCC active, \<open>updateDisplay\<close> produces a row of exactly 16 characters in which
  \<open>>CCC<\<close> starts at column \<open>margin = (15 - 3) / 2 = 6\<close>; the six columns to its
  left show the end of the preceding items, the columns to its right are
  blank, and this row is what is printed on the display.
\<close>

theorem menuRow_active_at_margin:
  "menuRow menuABC = Inr ''A  BB >CCC<     '' \<and>
   length ''A  BB >CCC<     '' = NUM_COLUMNS \<and>
   margin menuABC = 6 \<and>
   take (nat (margin menuABC)) ''A  BB >CCC<     '' = ''A  BB '' \<and>
   take 5 (drop (nat (margin menuABC)) ''A  BB >CCC<     '') = ''>CCC<'' \<and>
   drop (nat (margin menuABC) + 5) ''A  BB >CCC<     '' = ''     '' \<and>
   map_sum id lm_display (updateDisplay menuABC)
     = Inr ([SetCursor 0 0, SetCursor 0 0] @ map PrintChar ''A  BB >CCC<     '')"
proof -
  have m: "margin menuABC = 6"
    by (simp add: margin_def menuABC_def c_div_def usableColumns_def NUM_COLUMNS_def)
  have u: "map_sum id lm_display (updateDisplay menuABC)
     = Inr ([SetCursor 0 0, SetCursor 0 0] @ map PrintChar ''A  BB >CCC<     '')"
    unfolding updateDisplay_result [OF menuRow_menuABC]
    by (simp add: printMenu_def menuABC_def setCursor_def NUM_ROWS_def NUM_COLUMNS_def Let_def)
  show ?thesis using menuRow_menuABC m u by (simp add: NUM_COLUMNS_def)
qed

subsection \<open>The rendered row in general\<close>

lemma padFront_eq:
  "padFront bufMenu offs = (bufMenu @ replicate (nat (- offs)) (CHR '' ''), max offs 0)"
proof (induction bufMenu offs rule: padFront.induct)
  case (1 bufMenu offs)
  show ?case
  proof (cases "offs < 0")
    case True
    then have n: "nat (- offs) = Suc (nat (- (offs + 1)))" by simp
    have "padFront bufMenu offs = padFront (bufMenu @ [CHR '' '']) (offs + 1)"
      using True by (subst padFront.simps) simp
    also have "\<dots> = ((bufMenu @ [CHR '' '']) @ replicate (nat (- (offs + 1))) (CHR '' ''), max (offs + 1) 0)"
      using True by (rule "1.IH")
    also have "\<dots> = (bufMenu @ replicate (nat (- offs)) (CHR '' ''), max offs 0)"
      using True unfolding n by simp
    finally show ?thesis .
  next
    case False
    then show ?thesis by (subst padFront.simps) simp
  qed
qed

lemma copyMenuString_eq:
  "0 \<le> offs \<Longrightarrow>
   fst (copyMenuString menuString bufMenu offs) =
     bufMenu @ take (nat usableColumns - length bufMenu) (drop (nat offs) menuString)"
proof (induction menuString bufMenu offs rule: copyMenuString.induct)
  case (1 menuString bufMenu offs)
  show ?case
  proof (cases "int (length bufMenu) < usableColumns \<and> offs < int (length menuString)")
    case True
    then have lt: "nat offs < length menuString" and room: "length bufMenu < nat usableColumns"
      using "1.prems" by auto
    have "fst (copyMenuString menuString bufMenu offs) =
            fst (copyMenuString menuString (bufMenu @ [menuString ! nat offs]) (offs + 1))"
      using True by (subst copyMenuString.simps) simp
    also have "\<dots> = (bufMenu @ [menuString ! nat offs]) @
        take (nat usableColumns - length (bufMenu @ [menuString ! nat offs]))
          (drop (nat (offs + 1)) menuString)"
      using True "1.prems" by (intro "1.IH") simp_all
    also have "\<dots> = bufMenu @ take (nat usableColumns - length bufMenu) (drop (nat offs) menuString)"
    proof -
      have d: "drop (nat offs) menuString = menuString ! nat offs # drop (nat (offs + 1)) menuString"
        using lt "1.prems" by (simp add: Cons_nth_drop_Suc nat_add_distrib)
      have k: "nat usableColumns - length bufMenu = Suc (nat usableColumns - length (bufMenu @ [menuString ! nat offs]))"
        using room by simp
      show ?thesis unfolding d k by simp
    qed
    finally show ?thesis .
  next
    case False
    then have "take (nat usableColumns - length bufMenu) (drop (nat offs) menuString) = []"
      using "1.prems" by auto
    then show ?thesis using False by (subst copyMenuString.simps) auto
  qed
qed

lemma padEnd_eq:
  "padEnd bufMenu = bufMenu @ replicate (NUM_COLUMNS - length bufMenu) (CHR '' '')"
proof (induction bufMenu rule: padEnd.induct)
  case (1 bufMenu)
  show ?case
  proof (cases "length bufMenu < NUM_COLUMNS")
    case True
    then have n: "NUM_COLUMNS - length bufMenu = Suc (NUM_COLUMNS - length (bufMenu @ [CHR '' '']))"
      by simp
    have "padEnd bufMenu = padEnd (bufMenu @ [CHR '' ''])"
      using True by (subst padEnd.simps) simp
    also have "\<dots> = (bufMenu @ [CHR '' '']) @ replicate (NUM_COLUMNS - length (bufMenu @ [CHR '' ''])) (CHR '' '')"
      using True by (rule "1.IH")
    also have "\<dots> = bufMenu @ replicate (NUM_COLUMNS - length bufMenu) (CHR '' '')"
      unfolding n by simp
    finally show ?thesis .
  next
    case False
    then show ?thesis by (subst padEnd.simps) simp
  qed
qed

lemma menuRow_eq:
  assumes "buildMenuString (lm_menuItems m) 0 (lm_activeMenuIndex m) ([], 0, 0)
             = Inr (menuString, offsetToActive, offset)"
  shows "menuRow m = Inr (rowOf menuString (uint offsetToActive - margin m))"
proof -
  let ?o = "uint offsetToActive - margin m"
  have c: "copyMenuString menuString (replicate (nat (- ?o)) (CHR '' '')) (max ?o 0)
     = (fst (copyMenuString menuString (replicate (nat (- ?o)) (CHR '' '')) (max ?o 0)),
        snd (copyMenuString menuString (replicate (nat (- ?o)) (CHR '' '')) (max ?o 0)))"
    by simp
  show ?thesis
    unfolding menuRow_def assms
    apply (simp only: sum.case prod.case Let_def padFront_eq append_Nil)
    apply (subst c)
    apply (simp only: prod.case copyMenuString_eq [of "max ?o 0"] padEnd_eq rowOf_def Let_def)
    done
qed

lemma margin_le: "margin m \<le> 7"
proof -
  let ?a = "usableColumns - uint (lm_longestDisplay m)"
  have a: "?a \<le> 15" by (simp add: usableColumns_def NUM_COLUMNS_def)
  show ?thesis
  proof (cases "0 < ?a")
    case True
    then have "margin m = ?a div 2" by (simp add: margin_def c_div_def)
    then show ?thesis using a by linarith
  next
    case False
    then have "margin m = - (\<bar>?a\<bar> div 2)" by (simp add: margin_def c_div_def sgn_if)
    moreover have "0 \<le> \<bar>?a\<bar> div 2" by simp
    ultimately show ?thesis by linarith
  qed
qed

lemma rowOf_length:
  "- 15 \<le> offs \<Longrightarrow> length (rowOf menuString offs) = NUM_COLUMNS"
  by (auto simp: rowOf_def Let_def usableColumns_def NUM_COLUMNS_def)

lemma menuRow_length: "menuRow m = Inr row \<Longrightarrow> length row = NUM_COLUMNS"
proof -
  assume r: "menuRow m = Inr row"
  then obtain menuString offsetToActive offset where
    b: "buildMenuString (lm_menuItems m) 0 (lm_activeMenuIndex m) ([], 0, 0)
             = Inr (menuString, offsetToActive, offset)"
    by (auto simp: menuRow_def split: sum.splits)
  have "0 \<le> uint offsetToActive" by simp
  then have "- 15 \<le> uint offsetToActive - margin m" using margin_le [of m] by linarith
  then have "length (rowOf menuString (uint offsetToActive - margin m)) = NUM_COLUMNS"
    by (rule rowOf_length)
  then show ?thesis using r menuRow_eq [OF b] by simp
qed

lemma buildMenuString_append:
  "buildMenuString (xs @ ys) i active acc =
     (case buildMenuString xs i active acc of
        Inl e \<Rightarrow> Inl e
      | Inr acc' \<Rightarrow> buildMenuString ys (i + length xs) active acc')"
proof (induction xs arbitrary: i acc)
  case Nil
  show ?case by (cases acc) simp
next
  case (Cons x xs)
  obtain ms ota off where acc: "acc = (ms, ota, off)" by (cases acc) auto
  show ?case unfolding acc using Cons.IH by (simp add: Let_def cong: sum.case_cong)
qed

lemma buildMenuString_inactive:
  assumes "\<forall>item\<in>set items. length (mi_display item) \<le> 9"
    and "\<forall>k<length items. (of_nat (i + k) :: byte) \<noteq> active"
  shows "buildMenuString items i active (ms, ota, off) =
           Inr (ms @ concat (map (wrapped False) items), ota,
                off + of_nat (length (concat (map (wrapped False) items))))"
  using assms
proof (induction items arbitrary: i ms off)
  case Nil
  show ?case by simp
next
  case (Cons x xs)
  have x: "length (mi_display x) \<le> 9" using Cons.prems(1) by simp
  have na: "(of_nat i :: byte) \<noteq> active" using Cons.prems(2) by force
  have rest: "\<forall>k<length xs. (of_nat (i + 1 + k) :: byte) \<noteq> active"
  proof (intro allI impI)
    fix k assume "k < length xs"
    then have "Suc k < length (x # xs)" by simp
    then have "(of_nat (i + Suc k) :: byte) \<noteq> active" using Cons.prems(2) by blast
    then show "(of_nat (i + 1 + k) :: byte) \<noteq> active" by simp
  qed
  have xs: "\<forall>item\<in>set xs. length (mi_display item) \<le> 9" using Cons.prems(1) by simp
  show ?case
    using x na Cons.IH [OF xs rest]
    by (simp add: Let_def scratchBufferSize_def wrapped_def add.assoc)
qed


lemma byte_of_nat_neq:
  "k < 256 \<Longrightarrow> k \<noteq> unat active \<Longrightarrow> (of_nat k :: byte) \<noteq> active"
proof
  assume k: "k < 256" and ne: "k \<noteq> unat active" and eq: "(of_nat k :: byte) = active"
  have "unat (of_nat k :: byte) = k" using k by (simp add: unat_of_nat)
  then show False using ne eq by simp
qed

lemma buildMenuString_active:
  assumes items: "items = before @ [a] @ after"
    and act: "unat active = length before"
    and len: "length items \<le> 256"
    and labels: "\<forall>item\<in>set items. length (mi_display item) \<le> 9"
  shows "\<exists>offset. buildMenuString items 0 active ([], 0, 0) =
           Inr (concat (map (wrapped False) before) @ wrapped True a
                  @ concat (map (wrapped False) after),
                of_nat (length (concat (map (wrapped False) before))), offset)"
proof -
  let ?B = "concat (map (wrapped False) before)"
  let ?A = "concat (map (wrapped False) after)"
  have lb: "\<forall>item\<in>set before. length (mi_display item) \<le> 9"
    and la: "length (mi_display a) \<le> 9"
    and lf: "\<forall>item\<in>set after. length (mi_display item) \<le> 9"
    using labels items by simp_all
  have nb: "\<forall>k<length before. (of_nat (0 + k) :: byte) \<noteq> active"
  proof (intro allI impI)
    fix k assume k: "k < length before"
    then have "k < 256" using len items by simp
    moreover have "k \<noteq> unat active" using k act by simp
    ultimately show "(of_nat (0 + k) :: byte) \<noteq> active" by (simp add: byte_of_nat_neq)
  qed
  have nf: "\<forall>k<length after. (of_nat (length before + 1 + k) :: byte) \<noteq> active"
  proof (intro allI impI)
    fix k assume k: "k < length after"
    then have "length before + 1 + k < 256" using len items by simp
    moreover have "length before + 1 + k \<noteq> unat active" using act by simp
    ultimately show "(of_nat (length before + 1 + k) :: byte) \<noteq> active"
      by (rule byte_of_nat_neq)
  qed
  have ia: "(of_nat (length before) :: byte) = active"
    using act [symmetric] by simp
  have s1: "buildMenuString before 0 active ([], 0, 0) = Inr ([] @ ?B, 0, 0 + of_nat (length ?B))"
    by (rule buildMenuString_inactive [OF lb nb])
  have s2: "buildMenuString [a] (0 + length before) active (?B, 0, of_nat (length ?B))
              = Inr (?B @ wrapped True a, of_nat (length ?B),
                     of_nat (length ?B) + of_nat (length (wrapped True a)))"
    using la ia by (simp add: Let_def scratchBufferSize_def wrapped_def)
  have s3: "buildMenuString after (length before + 1) active
              (?B @ wrapped True a, of_nat (length ?B),
               of_nat (length ?B) + of_nat (length (wrapped True a)))
              = Inr ((?B @ wrapped True a) @ ?A, of_nat (length ?B),
                     of_nat (length ?B) + of_nat (length (wrapped True a)) + of_nat (length ?A))"
    by (rule buildMenuString_inactive [OF lf nf])
  have "buildMenuString items 0 active ([], 0, 0) =
          Inr ((?B @ wrapped True a) @ ?A, of_nat (length ?B),
               of_nat (length ?B) + of_nat (length (wrapped True a)) + of_nat (length ?A))"
    unfolding items
    apply (subst buildMenuString_append)
    apply (simp only: s1 sum.case append_Nil add_0)
    apply (subst buildMenuString_append)
    using s2 s3 apply simp
    done
  then show ?thesis by simp
qed

lemma rowOf_nth:
  assumes "- 15 \<le> offs" and "n < nat usableColumns"
    and "n < nat (- offs) + (length menuString - nat (max offs 0))"
  shows "rowOf menuString offs ! n =
           (replicate (nat (- offs)) (CHR '' '') @ drop (nat (max offs 0)) menuString) ! n"
proof -
  let ?front = "replicate (nat (- offs)) (CHR '' '')"
  let ?rest = "drop (nat (max offs 0)) menuString"
  let ?window = "take (nat usableColumns - length ?front) ?rest"
  have f: "length ?front \<le> nat usableColumns"
    using assms(1) by (simp add: usableColumns_def NUM_COLUMNS_def)
  have fw: "?front @ ?window = take (nat usableColumns) (?front @ ?rest)"
    using f by simp
  have "length (?front @ ?rest) = nat (- offs) + (length menuString - nat (max offs 0))"
    by simp
  then have n: "n < length (take (nat usableColumns) (?front @ ?rest))"
    using assms(2,3) by (simp only: length_take min_less_iff_conj)
  have "rowOf menuString offs ! n = (take (nat usableColumns) (?front @ ?rest)) ! n"
    unfolding rowOf_def Let_def fw using n by (simp only: nth_append if_True)
  also have "\<dots> = (?front @ ?rest) ! n" using assms(2) by (rule nth_take)
  finally show ?thesis .
qed

text \<open>
  The active item starts at column \<open>margin\<close> of the rendered row, wherever it
  stands in the menu: column \<open>margin + j\<close> shows character \<open>j\<close> of the wrapped
  active item, as far as the usable columns reach.
\<close>

lemma menuRow_active_column:
  assumes items: "lm_menuItems m = before @ [a] @ after"
    and act: "unat (lm_activeMenuIndex m) = length before"
    and len: "length (lm_menuItems m) \<le> 256"
    and labels: "\<forall>item\<in>set (lm_menuItems m). length (mi_display item) \<le> 9"
    and short: "length (concat (map (wrapped False) before)) < 256"
    and marg: "0 \<le> margin m"
    and j: "j < length (wrapped True a)" "nat (margin m) + j < nat usableColumns"
  shows "\<exists>row. menuRow m = Inr row \<and> row ! (nat (margin m) + j) = wrapped True a ! j"
proof -
  let ?B = "concat (map (wrapped False) before)"
  let ?W = "wrapped True a"
  let ?A = "concat (map (wrapped False) after)"
  let ?ms = "?B @ ?W @ ?A"
  obtain offset where b: "buildMenuString (lm_menuItems m) 0 (lm_activeMenuIndex m) ([], 0, 0)
      = Inr (?ms, of_nat (length ?B), offset)"
    using buildMenuString_active [OF items act len labels] by blast
  have u: "uint (of_nat (length ?B) :: byte) = int (length ?B)"
    using short by (simp add: uint_nat unat_of_nat)
  let ?offs = "int (length ?B) - margin m"
  have row: "menuRow m = Inr (rowOf ?ms ?offs)"
    using menuRow_eq [OF b] unfolding u .
  have lo: "- 15 \<le> ?offs" using margin_le [of m] by linarith
  let ?n = "nat (margin m) + j"
  have "(replicate (nat (- ?offs)) (CHR '' '') @ drop (nat (max ?offs 0)) ?ms) ! ?n = ?W ! j"
  proof (cases "?offs < 0")
    case True
    then have f: "nat (- ?offs) = nat (margin m) - length ?B" and d: "nat (max ?offs 0) = 0"
      and ge: "length ?B \<le> nat (margin m)"
      using marg by linarith+
    have "?n = length (replicate (nat (- ?offs)) (CHR '' '') @ ?B) + j"
      using f ge by simp
    then have "(replicate (nat (- ?offs)) (CHR '' '') @ drop (nat (max ?offs 0)) ?ms) ! ?n
        = ((replicate (nat (- ?offs)) (CHR '' '') @ ?B) @ (?W @ ?A)) !
            (length (replicate (nat (- ?offs)) (CHR '' '') @ ?B) + j)"
      unfolding d by simp
    also have "\<dots> = (?W @ ?A) ! j" by (rule nth_append_length_plus)
    also have "\<dots> = ?W ! j" using j(1) by (simp add: nth_append)
    finally show ?thesis .
  next
    case False
    then have f: "nat (- ?offs) = 0" and d: "nat (max ?offs 0) = length ?B - nat (margin m)"
      and ge: "nat (margin m) \<le> length ?B"
      using marg by linarith+
    have dr: "drop (nat (max ?offs 0)) ?ms = drop (length ?B - nat (margin m)) ?B @ (?W @ ?A)"
      unfolding d using ge by simp
    have l: "length (drop (length ?B - nat (margin m)) ?B) = nat (margin m)"
      using ge by simp
    have "(replicate (nat (- ?offs)) (CHR '' '') @ drop (nat (max ?offs 0)) ?ms) ! ?n
        = (drop (length ?B - nat (margin m)) ?B @ (?W @ ?A)) !
            (length (drop (length ?B - nat (margin m)) ?B) + j)"
      unfolding f dr l by simp
    also have "\<dots> = (?W @ ?A) ! j" by (rule nth_append_length_plus)
    also have "\<dots> = ?W ! j" using j(1) by (simp add: nth_append)
    finally show ?thesis .
  qed
  moreover have "rowOf ?ms ?offs ! ?n
      = (replicate (nat (- ?offs)) (CHR '' '') @ drop (nat (max ?offs 0)) ?ms) ! ?n"
  proof (rule rowOf_nth [OF lo j(2)])
    show "?n < nat (- ?offs) + (length ?ms - nat (max ?offs 0))"
    proof (cases "?offs < 0")
      case True
      then have "nat (- ?offs) = nat (margin m) - length ?B" "nat (max ?offs 0) = 0"
        "length ?B \<le> nat (margin m)"
        using marg by linarith+
      then show ?thesis using j(1) by simp
    next
      case False
      then have "nat (- ?offs) = 0" "nat (max ?offs 0) = length ?B - nat (margin m)"
        "nat (margin m) \<le> length ?B"
        using marg by linarith+
      then show ?thesis using j(1) by simp
    qed
  qed
  ultimately show ?thesis using row by simp
qed

subsection \<open>setNextActive\<close>

lemma printMenu_frame:
  "printMenu m line = Inr m' \<Longrightarrow>
   lm_menuItems m' = lm_menuItems m \<and> lm_activeMenuIndex m' = lm_activeMenuIndex m \<and>
   lm_maxItems m' = lm_maxItems m \<and> lm_longestDisplay m' = lm_longestDisplay m"
  by (auto simp: printMenu_def Let_def split: if_splits)

lemma updateDisplay_frame:
  "updateDisplay m = Inr m' \<Longrightarrow>
   lm_menuItems m' = lm_menuItems m \<and> lm_activeMenuIndex m' = lm_activeMenuIndex m \<and>
   lm_maxItems m' = lm_maxItems m \<and> lm_longestDisplay m' = lm_longestDisplay m"
  by (auto simp: updateDisplay_def setCursor_def Let_def split: sum.splits dest!: printMenu_frame)

lemma setNextActive_frame:
  assumes "setNextActive m = Inr m'"
  shows "lm_menuItems m' = lm_menuItems m" and "lm_maxItems m' = lm_maxItems m"
    and "lm_activeMenuIndex m' =
           word_of_int (adjustWrap (uint (lm_activeMenuIndex m)) 1 0 (int (numMenuItems m) - 1))"
  using assms
  by (auto simp: setNextActive_def Let_def split: sum.splits dest!: updateDisplay_frame)

lemma setNextActive_ok:
  assumes "\<forall>item\<in>set (lm_menuItems m). length (mi_display item) \<le> 9"
  shows "\<exists>m'. setNextActive m = Inr m'"
proof -
  let ?m1 = "m\<lparr> lm_activeMenuIndex :=
                    word_of_int (adjustWrap (uint (lm_activeMenuIndex m)) 1 0
                                   (int (numMenuItems m) - 1)) \<rparr>"
  have "\<forall>item\<in>set (lm_menuItems ?m1). length (mi_display item) \<le> 9" using assms by simp
  then obtain m2 where "updateDisplay ?m1 = Inr m2" using updateDisplay_ok by blast
  then show ?thesis by (simp add: setNextActive_def Let_def)
qed

lemma adjustWrap_next:
  "0 < n \<Longrightarrow> adjustWrap (int i) 1 0 (int n - 1) = int ((i + 1) mod n)"
  by (simp add: adjustWrap_def zmod_int add.commute)

lemma setNextActive_index:
  assumes ok: "setNextActive m = Inr m'"
    and n: "0 < numMenuItems m" "numMenuItems m \<le> unat (lm_maxItems m)"
  shows "unat (lm_activeMenuIndex m') = (unat (lm_activeMenuIndex m) + 1) mod numMenuItems m"
proof -
  let ?n = "numMenuItems m"
  let ?i = "unat (lm_activeMenuIndex m)"
  have "(?i + 1) mod ?n < ?n" using n(1) by simp
  then have small: "(?i + 1) mod ?n \<le> unat (lm_maxItems m)" using n(2) by linarith
  have "lm_activeMenuIndex m' = word_of_int (adjustWrap (int ?i) 1 0 (int ?n - 1))"
    using setNextActive_frame(3) [OF ok] by (simp only: uint_nat)
  also have "\<dots> = word_of_int (int ((?i + 1) mod ?n))"
    by (simp only: adjustWrap_next [OF n(1)])
  also have "\<dots> = of_nat ((?i + 1) mod ?n)"
    by (simp only: of_int_of_nat_eq)
  finally show ?thesis using le_unat_uoi [OF small] by simp
qed

lemma setNextActive_times_index:
  assumes "unat (lm_activeMenuIndex m) < numMenuItems m"
    and "numMenuItems m \<le> unat (lm_maxItems m)"
    and "\<forall>item\<in>set (lm_menuItems m). length (mi_display item) \<le> 9"
  shows "\<exists>m'. setNextActive_times k m = Inr m' \<and> lm_menuItems m' = lm_menuItems m \<and>
           unat (lm_activeMenuIndex m') = (unat (lm_activeMenuIndex m) + k) mod numMenuItems m"
  using assms
proof (induction k arbitrary: m)
  case 0
  then show ?case by simp
next
  case (Suc k)
  have pos: "0 < numMenuItems m" using Suc.prems(1) by simp
  obtain m1 where m1: "setNextActive m = Inr m1"
    using setNextActive_ok [OF Suc.prems(3)] by blast
  note f = setNextActive_frame(1,2) [OF m1]
  have n1: "numMenuItems m1 = numMenuItems m" using f(1) by (simp add: numMenuItems_def)
  have i1: "unat (lm_activeMenuIndex m1) = (unat (lm_activeMenuIndex m) + 1) mod numMenuItems m"
    using setNextActive_index [OF m1 pos Suc.prems(2)] .
  have a1: "unat (lm_activeMenuIndex m1) < numMenuItems m1"
    unfolding i1 n1 using pos by simp
  have a2: "numMenuItems m1 \<le> unat (lm_maxItems m1)"
    unfolding n1 f(2) by (rule Suc.prems(2))
  have a3: "\<forall>item\<in>set (lm_menuItems m1). length (mi_display item) \<le> 9"
    unfolding f(1) by (rule Suc.prems(3))
  obtain m' where m': "setNextActive_times k m1 = Inr m'" "lm_menuItems m' = lm_menuItems m1"
      "unat (lm_activeMenuIndex m') = (unat (lm_activeMenuIndex m1) + k) mod numMenuItems m1"
    using Suc.IH [OF a1 a2 a3] by blast
  have "unat (lm_activeMenuIndex m') = ((unat (lm_activeMenuIndex m) + 1) mod numMenuItems m + k) mod numMenuItems m"
    using m'(3) unfolding i1 n1 .
  also have "\<dots> = (unat (lm_activeMenuIndex m) + Suc k) mod numMenuItems m"
    by (simp add: mod_add_left_eq)
  finally have idx: "unat (lm_activeMenuIndex m') = (unat (lm_activeMenuIndex m) + Suc k) mod numMenuItems m" .
  have "setNextActive_times (Suc k) m = Inr m'" using m1 m'(1) by simp
  then show ?case using m'(2) f(1) idx by simp
qed

text \<open>
  C5. Wraparound navigation. In a menu of N > 0 items whose active index is a
  valid index (and whose labels fit the scratch buffer of updateDisplay), each
  call of setNextActive succeeds and moves the active index to (index + 1) mod N,
  and N calls in succession bring the active index, and with it the identifier
  returned by getActive, back to where they were.
\<close>

theorem setNextActive_wraparound:
  assumes "0 < numMenuItems m" and "numMenuItems m \<le> unat (lm_maxItems m)"
    and "unat (lm_activeMenuIndex m) < numMenuItems m"
    and "\<forall>item\<in>set (lm_menuItems m). length (mi_display item) \<le> 9"
  shows "(\<exists>m1. setNextActive m = Inr m1 \<and>
            unat (lm_activeMenuIndex m1) = (unat (lm_activeMenuIndex m) + 1) mod numMenuItems m) \<and>
         (\<exists>m'. setNextActive_times (numMenuItems m) m = Inr m' \<and>
            lm_activeMenuIndex m' = lm_activeMenuIndex m \<and> getActive m' = getActive m)"
proof -
  obtain m1 where m1: "setNextActive m = Inr m1"
    using setNextActive_ok [OF assms(4)] by blast
  have one: "unat (lm_activeMenuIndex m1) = (unat (lm_activeMenuIndex m) + 1) mod numMenuItems m"
    using setNextActive_index [OF m1 assms(1,2)] .
  obtain m' where m': "setNextActive_times (numMenuItems m) m = Inr m'"
      "lm_menuItems m' = lm_menuItems m"
      "unat (lm_activeMenuIndex m') = (unat (lm_activeMenuIndex m) + numMenuItems m) mod numMenuItems m"
    using setNextActive_times_index [OF assms(3,2,4), of "numMenuItems m"] by blast
  have "unat (lm_activeMenuIndex m') = unat (lm_activeMenuIndex m)"
    using m'(3) assms(3) by simp
  then have idx: "lm_activeMenuIndex m' = lm_activeMenuIndex m"
    by (simp add: word_unat_eq_iff)
  have "getActive m' = getActive m"
    using idx m'(2) by (simp add: getActive_def numMenuItems_def)
  then have two: "setNextActive_times (numMenuItems m) m = Inr m' \<and>
            lm_activeMenuIndex m' = lm_activeMenuIndex m \<and> getActive m' = getActive m"
    using m'(1) idx by simp
  have first: "setNextActive m = Inr m1 \<and>
            unat (lm_activeMenuIndex m1) = (unat (lm_activeMenuIndex m) + 1) mod numMenuItems m"
    using m1 one by simp
  show ?thesis
  proof (rule conjI)
    show "\<exists>m1. setNextActive m = Inr m1 \<and>
            unat (lm_activeMenuIndex m1) = (unat (lm_activeMenuIndex m) + 1) mod numMenuItems m"
      using first by (rule exI)
    show "\<exists>m'. setNextActive_times (numMenuItems m) m = Inr m' \<and>
            lm_activeMenuIndex m' = lm_activeMenuIndex m \<and> getActive m' = getActive m"
      using two by (rule exI)
  qed
qed




theorem setNextActive_wraparound_witness:
  "0 < numMenuItems menuABC \<and> numMenuItems menuABC \<le> unat (lm_maxItems menuABC) \<and>
   unat (lm_activeMenuIndex menuABC) < numMenuItems menuABC \<and>
   list_all (\<lambda>item. length (mi_display item) \<le> 9) (lm_menuItems menuABC) \<and>
   \<not> isl (setNextActive menuABC) \<and>
   unat (lm_activeMenuIndex (projr (setNextActive menuABC))) = 0 \<and>
   \<not> isl (setNextActive_times 3 menuABC) \<and>
   lm_activeMenuIndex (projr (setNextActive_times 3 menuABC)) = 2 \<and>
   getActive (projr (setNextActive_times 3 menuABC)) = Inr 3"
proof -
  have n: "numMenuItems menuABC = 3" by (simp add: numMenuItems_def menuABC_def)
  have h1: "0 < numMenuItems menuABC" by (simp add: n)
  have h2: "numMenuItems menuABC \<le> unat (lm_maxItems menuABC)"
    unfolding n by (simp add: menuABC_def)
  have h3: "unat (lm_activeMenuIndex menuABC) < numMenuItems menuABC"
    unfolding n by (simp add: menuABC_def)
  have h4: "\<forall>item\<in>set (lm_menuItems menuABC). length (mi_display item) \<le> 9"
    by (simp add: menuABC_def)
  have g: "getActive menuABC = Inr 3" by (simp add: getActive_def numMenuItems_def menuABC_def)
  have i: "lm_activeMenuIndex menuABC = 2" by (simp add: menuABC_def)
  from setNextActive_wraparound [OF h1 h2 h3 h4]
  obtain m1 m' where "setNextActive menuABC = Inr m1"
    "unat (lm_activeMenuIndex m1) = (unat (lm_activeMenuIndex menuABC) + 1) mod numMenuItems menuABC"
    "setNextActive_times (numMenuItems menuABC) menuABC = Inr m'"
    "lm_activeMenuIndex m' = lm_activeMenuIndex menuABC" "getActive m' = getActive menuABC"
    by blast
  then show ?thesis using h1 h2 h3 h4 g by (simp add: n i list_all_iff)
qed

subsection \<open>The row cache\<close>

lemma print_string_cells:
  "sc_col sc + length s \<le> NUM_COLUMNS \<Longrightarrow>
   sc_cells (foldl display_step sc (map PrintChar s)) (sc_row sc) col =
     (if sc_col sc \<le> col \<and> col < sc_col sc + length s then s ! (col - sc_col sc)
      else sc_cells sc (sc_row sc) col)"
proof (induction s arbitrary: sc)
  case Nil
  show ?case by auto
next
  case (Cons x xs)
  let ?sc1 = "display_step sc (PrintChar x)"
  show ?case
  proof (cases "xs = []")
    case True
    then show ?thesis by (simp add: Let_def)
  next
    case False
    then have lt: "sc_col sc + 1 < NUM_COLUMNS" using Cons.prems by (cases xs) simp_all
    have r1: "sc_row ?sc1 = sc_row sc" and c1: "sc_col ?sc1 = sc_col sc + 1"
      using lt by (simp_all add: Let_def)
    have cells1: "sc_cells ?sc1 (sc_row sc) col = (if col = sc_col sc then x else sc_cells sc (sc_row sc) col)"
      by (simp add: Let_def)
    have "sc_col ?sc1 + length xs \<le> NUM_COLUMNS" using Cons.prems c1 by simp
    from Cons.IH [OF this]
    have "sc_cells (foldl display_step ?sc1 (map PrintChar xs)) (sc_row sc) col =
            (if sc_col sc + 1 \<le> col \<and> col < sc_col sc + 1 + length xs
             then xs ! (col - (sc_col sc + 1)) else sc_cells ?sc1 (sc_row sc) col)"
      unfolding r1 c1 .
    then show ?thesis
      unfolding cells1
      by (auto simp: nth_Cons' simp del: display_step.simps)
  qed
qed

lemma shown_append: "shown (ops @ ops') = foldl display_step (shown ops) ops'"
  by (simp add: shown_def)

lemma shownRow_print_line:
  assumes "length s = NUM_COLUMNS"
  shows "shownRow (ops @ [SetCursor 0 row] @ map PrintChar s) (unat row) = s"
proof -
  let ?sc = "display_step (shown ops) (SetCursor 0 row)"
  have sc: "sc_row ?sc = unat row" "sc_col ?sc = 0" by simp_all
  have "sc_col ?sc + length s \<le> NUM_COLUMNS" using assms sc by simp
  from print_string_cells [OF this]
  have cells: "\<And>col. sc_cells (foldl display_step ?sc (map PrintChar s)) (unat row) col =
     (if col < length s then s ! col else sc_cells ?sc (unat row) col)"
    unfolding sc by simp
  have "shownRow (ops @ [SetCursor 0 row] @ map PrintChar s) (unat row)
          = map (\<lambda>col. if col < length s then s ! col else sc_cells ?sc (unat row) col) [0..<length s]"
    unfolding shownRow_def shown_append assms [symmetric]
    using cells by (simp del: display_step.simps)
  also have "\<dots> = map ((!) s) [0..<length s]" by simp
  also have "\<dots> = s" by (rule map_nth)
  finally show ?thesis .
qed

lemma print_string_other_rows:
  "sc_col sc + length s \<le> NUM_COLUMNS \<Longrightarrow> r \<noteq> sc_row sc \<Longrightarrow>
   sc_cells (foldl display_step sc (map PrintChar s)) r = sc_cells sc r"
proof (induction s arbitrary: sc)
  case Nil
  show ?case by simp
next
  case (Cons x xs)
  let ?sc1 = "display_step sc (PrintChar x)"
  have cells1: "sc_cells ?sc1 r = sc_cells sc r"
    using Cons.prems(2) by (simp add: Let_def)
  show ?case
  proof (cases "xs = []")
    case True
    then show ?thesis using cells1 by (simp del: display_step.simps)
  next
    case False
    then have lt: "sc_col sc + 1 < NUM_COLUMNS" using Cons.prems(1) by (cases xs) simp_all
    have r1: "sc_row ?sc1 = sc_row sc" and c1: "sc_col ?sc1 = sc_col sc + 1"
      using lt by (simp_all add: Let_def)
    have "sc_cells (foldl display_step ?sc1 (map PrintChar xs)) r = sc_cells ?sc1 r"
      using Cons.prems r1 c1 by (intro Cons.IH) simp_all
    then show ?thesis using cells1 by (simp del: display_step.simps)
  qed
qed

lemma shownRow_print_line_other:
  assumes "length s = NUM_COLUMNS" and "r \<noteq> unat row"
  shows "shownRow (ops @ [SetCursor 0 row] @ map PrintChar s) r = shownRow ops r"
proof -
  let ?sc = "display_step (shown ops) (SetCursor 0 row)"
  have sc: "sc_row ?sc = unat row" "sc_col ?sc = 0" "sc_cells ?sc = sc_cells (shown ops)"
    by simp_all
  have "sc_cells (foldl display_step ?sc (map PrintChar s)) r = sc_cells ?sc r"
    using assms sc by (intro print_string_other_rows) simp_all
  then show ?thesis
    unfolding shownRow_def shown_append by (simp del: display_step.simps add: sc(3))
qed

lemma shownRow_setCursor: "shownRow (ops @ [SetCursor col row]) r = shownRow ops r"
  by (simp add: shownRow_def shown_append)

lemma shownRow_Nil: "shownRow [] r = replicate NUM_COLUMNS (CHR '' '')"
  by (simp add: shownRow_def shown_def blank_screen_def map_replicate_const)

lemma cache_coherent_init: "cache_coherent (FullLcdMenu_init maxItems)"
  by (simp add: cache_coherent_def FullLcdMenu_init_def shownRow_Nil)

lemma printMenu_coherent:
  assumes coh: "cache_coherent m" and row: "unat (lm_activeRow m) < NUM_ROWS"
    and col: "lm_activeCol m = 0" and len: "length line \<le> NUM_COLUMNS"
  shows "\<exists>m'. printMenu m line = Inr m' \<and> cache_coherent m' \<and>
           lm_lastDisplay m' = (lm_lastDisplay m)(unat (lm_activeRow m) := line)"
proof (cases "lm_lastDisplay m (unat (lm_activeRow m)) = line")
  case True
  then have "printMenu m line = Inr m" using row col by (simp add: printMenu_def)
  moreover have "lm_lastDisplay m = (lm_lastDisplay m)(unat (lm_activeRow m) := line)"
    using True by auto
  ultimately show ?thesis using coh by blast
next
  case False
  let ?r = "unat (lm_activeRow m)"
  let ?padded = "line @ replicate (NUM_COLUMNS - length line) (CHR '' '')"
  let ?m' = "m\<lparr> lm_lastDisplay := (lm_lastDisplay m)(?r := line),
                 lm_display := lm_display m @ [SetCursor 0 (lm_activeRow m)] @ map PrintChar ?padded \<rparr>"
  have plen: "length ?padded = NUM_COLUMNS" using len by simp
  have "nat (int NUM_COLUMNS - int (length line)) = NUM_COLUMNS - length line" by simp
  then have pm: "printMenu m line = Inr ?m'"
    using row col False by (simp add: printMenu_def Let_def)
  have "cache_coherent ?m'"
    unfolding cache_coherent_def
  proof
    fix r assume r: "r \<in> set [0..<NUM_ROWS]"
    show "shownRow (lm_display ?m') r =
            lm_lastDisplay ?m' r @ replicate (NUM_COLUMNS - length (lm_lastDisplay ?m' r)) (CHR '' '')"
    proof (cases "r = ?r")
      case True
      then show ?thesis using shownRow_print_line [OF plen, of "lm_display m" "lm_activeRow m"] by simp
    next
      case False
      have "shownRow (lm_display ?m') r = shownRow (lm_display m) r"
        using shownRow_print_line_other [OF plen False, of "lm_display m"] by simp
      also have "\<dots> = lm_lastDisplay m r @ replicate (NUM_COLUMNS - length (lm_lastDisplay m r)) (CHR '' '')"
        using coh r unfolding cache_coherent_def by blast
      finally show ?thesis using False by simp
    qed
  qed
  then show ?thesis using pm by simp
qed

lemma updateDisplay_coherent:
  assumes coh: "cache_coherent m" and ud: "updateDisplay m = Inr mu"
  shows "cache_coherent mu \<and>
         (\<exists>bufMenu. menuRow m = Inr bufMenu \<and> lm_lastDisplay mu = (lm_lastDisplay m)(0 := bufMenu))"
proof -
  from ud obtain bufMenu where mr: "menuRow m = Inr bufMenu"
    by (auto simp: updateDisplay_def split: sum.splits)
  let ?m1 = "m\<lparr> lm_display := lm_display m @ [SetCursor 0 0], lm_activeRow := 0, lm_activeCol := 0 \<rparr>"
  have c1: "cache_coherent ?m1"
    using coh by (simp add: cache_coherent_def shownRow_setCursor)
  have len: "length bufMenu \<le> NUM_COLUMNS" using menuRow_length [OF mr] by simp
  have "unat (lm_activeRow ?m1) < NUM_ROWS" by (simp add: NUM_ROWS_def)
  moreover have "lm_activeCol ?m1 = 0" by simp
  ultimately obtain m2 where m2: "printMenu ?m1 bufMenu = Inr m2" "cache_coherent m2"
      "lm_lastDisplay m2 = (lm_lastDisplay ?m1)(unat (lm_activeRow ?m1) := bufMenu)"
    using printMenu_coherent [OF c1 _ _ len] by blast
  have mu: "mu = setCursor m2 0 1"
    using ud m2(1) unfolding updateDisplay_result [OF mr] by simp
  have "cache_coherent mu" using m2(2) by (simp add: mu cache_coherent_def setCursor_def)
  moreover have "lm_lastDisplay mu = (lm_lastDisplay m)(0 := bufMenu)"
    using m2(3) by (simp add: mu setCursor_def)
  ultimately show ?thesis using mr by blast
qed

lemma printAt_shown:
  "sc_cells (shown (lm_display (printAt m col row ch)))
     (unat (word_of_int row :: byte)) (unat (word_of_int col :: byte)) = ch"
  by (simp add: printAt_def shown_append Let_def)

text \<open>
  C9, as the code has it. A row's cache, padded with blanks to \<open>NUM_COLUMNS\<close>,
  equals what the display shows on that row: this holds after construction, and
  \<open>printMenu\<close> at column 0 of a valid row with at most \<open>NUM_COLUMNS\<close> characters
  preserves it, changing the cache of the current row only; so does
  \<open>updateDisplay\<close>, which prints the menu row this way on row 0. \<open>printAt\<close>
  leaves the cache as it is and puts its character on the display.
\<close>

theorem cache_coherent_printMenu:
  "cache_coherent (FullLcdMenu_init maxItems) \<and>
   (cache_coherent m \<and> unat (lm_activeRow m) < NUM_ROWS \<and> lm_activeCol m = 0 \<and>
    length line \<le> NUM_COLUMNS \<longrightarrow>
      (\<exists>m'. printMenu m line = Inr m' \<and> cache_coherent m' \<and>
            lm_lastDisplay m' = (lm_lastDisplay m)(unat (lm_activeRow m) := line))) \<and>
   (cache_coherent m \<and> updateDisplay m = Inr mu \<longrightarrow>
      cache_coherent mu \<and>
      (\<exists>bufMenu. menuRow m = Inr bufMenu \<and> lm_lastDisplay mu = (lm_lastDisplay m)(0 := bufMenu))) \<and>
   lm_lastDisplay (printAt m col row ch) = lm_lastDisplay m \<and>
   sc_cells (shown (lm_display (printAt m col row ch)))
     (unat (word_of_int row :: byte)) (unat (word_of_int col :: byte)) = ch"
  using cache_coherent_init printMenu_coherent [of m line] updateDisplay_coherent [of m mu]
    printAt_shown [of m col row ch]
  by (simp add: printAt_def)

theorem cache_coherent_printMenu_witness:
  "cache_coherent (FullLcdMenu_init 10) \<and>
   cache_coherent (setCursor menuABC 0 1) \<and>
   unat (lm_activeRow (setCursor menuABC 0 1)) < NUM_ROWS \<and>
   lm_activeCol (setCursor menuABC 0 1) = 0 \<and>
   length ''RA'' \<le> NUM_COLUMNS \<and>
   (\<exists>m'. printMenu (setCursor menuABC 0 1) ''RA'' = Inr m' \<and> cache_coherent m' \<and>
         lm_lastDisplay m' = (lm_lastDisplay (setCursor menuABC 0 1))(1 := ''RA'')) \<and>
   cache_coherent menuABC \<and>
   updateDisplay menuABC = Inr (projr (updateDisplay menuABC)) \<and>
   cache_coherent (projr (updateDisplay menuABC)) \<and>
   lm_lastDisplay (projr (updateDisplay menuABC)) 0 = ''A  BB >CCC<     '' \<and>
   lm_lastDisplay (printAt menuRA 15 1 (CHR ''&'')) = lm_lastDisplay menuRA \<and>
   sc_cells (shown (lm_display (printAt menuRA 15 1 (CHR ''&'')))) 1 15 = CHR ''&''"
proof -
  let ?m = "setCursor menuABC 0 1"
  have c0: "cache_coherent menuABC"
    by (simp add: cache_coherent_def menuABC_def shownRow_Nil)
  have c1: "cache_coherent ?m"
    using c0 by (simp add: cache_coherent_def setCursor_def)
  have r: "unat (lm_activeRow ?m) = 1" by (simp add: setCursor_def)
  have h1: "unat (lm_activeRow ?m) < NUM_ROWS" by (simp add: setCursor_def NUM_ROWS_def)
  have h2: "lm_activeCol ?m = 0" by (simp add: setCursor_def)
  have h3: "length ''RA'' \<le> NUM_COLUMNS" by (simp add: NUM_COLUMNS_def)
  have h4: "updateDisplay menuABC = Inr (projr (updateDisplay menuABC))"
  proof -
    have "\<forall>item\<in>set (lm_menuItems menuABC). length (mi_display item) \<le> 9"
      by (simp add: menuABC_def)
    then obtain m1 where "updateDisplay menuABC = Inr m1" using updateDisplay_ok by blast
    then show ?thesis by simp
  qed
  have init: "cache_coherent (FullLcdMenu_init 10)"
    using cache_coherent_printMenu [where maxItems = 10] by blast
  from cache_coherent_printMenu [where m = ?m and line = "''RA''"] c1 h1 h2 h3
  have "\<exists>m'. printMenu ?m ''RA'' = Inr m' \<and> cache_coherent m' \<and>
         lm_lastDisplay m' = (lm_lastDisplay ?m)(unat (lm_activeRow ?m) := ''RA'')"
    by blast
  then have one: "\<exists>m'. printMenu ?m ''RA'' = Inr m' \<and> cache_coherent m' \<and>
         lm_lastDisplay m' = (lm_lastDisplay ?m)(1 := ''RA'')"
    unfolding r .
  from cache_coherent_printMenu [where m = menuABC and mu = "projr (updateDisplay menuABC)"] c0 h4
  have two: "cache_coherent (projr (updateDisplay menuABC)) \<and>
      (\<exists>bufMenu. menuRow menuABC = Inr bufMenu \<and>
         lm_lastDisplay (projr (updateDisplay menuABC)) = (lm_lastDisplay menuABC)(0 := bufMenu))"
    by blast
  then have three: "lm_lastDisplay (projr (updateDisplay menuABC)) 0 = ''A  BB >CCC<     ''"
    using menuRow_menuABC by auto
  from cache_coherent_printMenu [where m = menuRA and col = 15 and row = 1 and ch = "CHR ''&''"]
  have four: "lm_lastDisplay (printAt menuRA 15 1 (CHR ''&'')) = lm_lastDisplay menuRA \<and>
      sc_cells (shown (lm_display (printAt menuRA 15 1 (CHR ''&'')))) 1 15 = CHR ''&''"
    by simp
  show ?thesis using init c0 c1 h1 h2 h3 h4 one two three four by blast
qed

text \<open>
  C9 as stated (the cache of a row equals exactly what the row shows, and every
  writing operation keeps it so) fails. After the submenu line has been printed
  on row 1, cache and display agree; \<open>printAt(15, 1, '&')\<close> then changes the last
  column on the display and not in the cache. A shorter line such as \<open>RA\<close> is
  cached as it is while the display shows it padded with blanks. And
  \<open>setNextActive\<close> blanks row 1 on the display while the cache keeps the old
  line, so that a following \<open>printMenu\<close> of the same line is skipped.
\<close>

theorem cache_coherence_counterexample:
  "printMenu (setCursor menuABC 0 1) ''RA: 12h 34m 56s '' = Inr menuRA \<and>
   cache_coherent menuRA \<and>
   lm_lastDisplay menuRA 1 = shownRow (lm_display menuRA) 1 \<and>
   lm_lastDisplay (printAt menuRA 15 1 (CHR ''&'')) 1 = ''RA: 12h 34m 56s '' \<and>
   shownRow (lm_display (printAt menuRA 15 1 (CHR ''&''))) 1 = ''RA: 12h 34m 56s&'' \<and>
   \<not> cache_coherent (printAt menuRA 15 1 (CHR ''&'')) \<and>
   lm_lastDisplay (projr (printMenu (setCursor menuABC 0 1) ''RA'')) 1 = ''RA'' \<and>
   shownRow (lm_display (projr (printMenu (setCursor menuABC 0 1) ''RA''))) 1 = ''RA              '' \<and>
   \<not> isl (setNextActive menuRA) \<and>
   lm_lastDisplay (projr (setNextActive menuRA)) 1 = ''RA: 12h 34m 56s '' \<and>
   shownRow (lm_display (projr (setNextActive menuRA))) 1 = ''                '' \<and>
   \<not> cache_coherent (projr (setNextActive menuRA)) \<and>
   printMenu (projr (setNextActive menuRA)) ''RA: 12h 34m 56s ''
     = Inr (projr (setNextActive menuRA))"
proof -
  have a: "printMenu (setCursor menuABC 0 1) ''RA: 12h 34m 56s '' = Inr menuRA"
    by (simp add: menuRA_def printMenu_def setCursor_def menuABC_def NUM_ROWS_def Let_def)
  have a': "cache_coherent menuRA" by code_simp
  have b: "lm_lastDisplay menuRA 1 = shownRow (lm_display menuRA) 1" by code_simp
  have c: "lm_lastDisplay (printAt menuRA 15 1 (CHR ''&'')) 1 = ''RA: 12h 34m 56s ''" by code_simp
  have d: "shownRow (lm_display (printAt menuRA 15 1 (CHR ''&''))) 1 = ''RA: 12h 34m 56s&''"
    by code_simp
  have d': "\<not> cache_coherent (printAt menuRA 15 1 (CHR ''&''))" by code_simp
  have p: "lm_lastDisplay (projr (printMenu (setCursor menuABC 0 1) ''RA'')) 1 = ''RA''"
    by code_simp
  have q: "shownRow (lm_display (projr (printMenu (setCursor menuABC 0 1) ''RA''))) 1
             = ''RA              ''"
    by code_simp
  have e: "\<not> isl (setNextActive menuRA)" by code_simp
  have f: "lm_lastDisplay (projr (setNextActive menuRA)) 1 = ''RA: 12h 34m 56s ''" by code_simp
  have g: "shownRow (lm_display (projr (setNextActive menuRA))) 1 = ''                ''"
    by code_simp
  have g': "\<not> cache_coherent (projr (setNextActive menuRA))" by code_simp
  have r1: "lm_activeRow (projr (setNextActive menuRA)) = 1" by code_simp
  have r2: "lm_activeCol (projr (setNextActive menuRA)) = 0" by code_simp
  have h: "printMenu (projr (setNextActive menuRA)) ''RA: 12h 34m 56s ''
             = Inr (projr (setNextActive menuRA))"
    using f r1 r2 by (simp add: printMenu_def NUM_ROWS_def)
  show ?thesis using a a' b c d d' p q e f g g' h by blast
qed


section \<open>Properties of the display devices\<close>

lemma translateChar_reserved:
  "map translateChar reservedChars = [0, 1, 2, 3, 4, 5, 6, 7]"
  by (simp add: reservedChars_def translateChar_def SYMBOL_DEGREES_def SYMBOL_MINUTES_def
        SYMBOL_LEFT_ARROW_def SYMBOL_RIGHT_ARROW_def SYMBOL_UP_ARROW_def SYMBOL_DOWN_ARROW_def
        SYMBOL_NO_TRACKING_def SYMBOL_TRACKING_def)

lemma translateChar_other: "ch \<notin> set reservedChars \<Longrightarrow> translateChar ch = of_char ch"
  by (simp add: reservedChars_def translateChar_def)

lemma SSD1306_other:
  "ch \<notin> set reservedChars \<Longrightarrow>
   SSD1306DisplayDevice_printChar ch = [setFont u8x8_font_7x14_1x2_f, drawGlyph (of_char ch)]"
  by (simp add: reservedChars_def SSD1306DisplayDevice_printChar_def)

text \<open>
  C4. Symbol substitution. The HD44780 devices map the eight reserved characters
  to the CGRAM locations 0 to 7 and pass every other character on unchanged. The
  SSD1306 device draws a dedicated glyph for seven of them, but it has no case
  for the apostrophe (minutes): that character takes the final branch, the one
  of ordinary characters such as \<open>A\<close>, and is drawn from the text font with its
  own code point 39, where the HD44780 devices write \<open>SYMBOL_MINUTES\<close>.
\<close>

theorem SSD1306_printChar_minutes_literal:
  "SSD1306DisplayDevice_printChar (CHR 0x27)
     = [setFont u8x8_font_7x14_1x2_f, drawGlyph (of_char (CHR 0x27))] \<and>
   SSD1306DisplayDevice_printChar (CHR ''A'')
     = [setFont u8x8_font_7x14_1x2_f, drawGlyph (of_char (CHR ''A''))] \<and>
   LcdKeypadShieldDisplayDevice_printChar (CHR 0x27) = [lcd_write SYMBOL_MINUTES] \<and>
   MCP23008_MCP23017DisplayDevice_printChar (CHR 0x27) = [lcd_write SYMBOL_MINUTES] \<and>
   SYMBOL_MINUTES \<noteq> of_char (CHR 0x27) \<and>
   map translateChar reservedChars = [0, 1, 2, 3, 4, 5, 6, 7] \<and>
   map SSD1306DisplayDevice_printChar reservedChars =
     [[setFont u8x8_font_7x14_1x2_f, drawGlyph 176],
      [setFont u8x8_font_7x14_1x2_f, drawGlyph 39],
      [setFont u8x8_font_open_iconic_arrow_1x1, draw1x2Glyph 77],
      [setFont u8x8_font_open_iconic_arrow_1x1, draw1x2Glyph 78],
      [setFont u8x8_font_open_iconic_arrow_1x1, draw1x2Glyph 79],
      [setFont u8x8_font_open_iconic_arrow_1x1, draw1x2Glyph 76],
      [setFont u8x8_font_open_iconic_thing_1x1, draw1x2Glyph 68],
      [setFont u8x8_font_open_iconic_thing_1x1, draw1x2Glyph 79]]"
proof -
  have ssd: "map SSD1306DisplayDevice_printChar reservedChars =
     [[setFont u8x8_font_7x14_1x2_f, drawGlyph 176],
      [setFont u8x8_font_7x14_1x2_f, drawGlyph 39],
      [setFont u8x8_font_open_iconic_arrow_1x1, draw1x2Glyph 77],
      [setFont u8x8_font_open_iconic_arrow_1x1, draw1x2Glyph 78],
      [setFont u8x8_font_open_iconic_arrow_1x1, draw1x2Glyph 79],
      [setFont u8x8_font_open_iconic_arrow_1x1, draw1x2Glyph 76],
      [setFont u8x8_font_open_iconic_thing_1x1, draw1x2Glyph 68],
      [setFont u8x8_font_open_iconic_thing_1x1, draw1x2Glyph 79]]"
    by (simp add: SSD1306DisplayDevice_printChar_def reservedChars_def)
  have lit: "SSD1306DisplayDevice_printChar (CHR 0x27)
     = [setFont u8x8_font_7x14_1x2_f, drawGlyph (of_char (CHR 0x27))]"
    by (simp add: SSD1306DisplayDevice_printChar_def)
  have litA: "SSD1306DisplayDevice_printChar (CHR ''A'')
     = [setFont u8x8_font_7x14_1x2_f, drawGlyph (of_char (CHR ''A''))]"
    by (simp add: SSD1306DisplayDevice_printChar_def)
  have hd1: "LcdKeypadShieldDisplayDevice_printChar (CHR 0x27) = [lcd_write SYMBOL_MINUTES]"
    by (simp add: LcdKeypadShieldDisplayDevice_printChar_def translateChar_def)
  have hd2: "MCP23008_MCP23017DisplayDevice_printChar (CHR 0x27) = [lcd_write SYMBOL_MINUTES]"
    by (simp add: MCP23008_MCP23017DisplayDevice_printChar_def translateChar_def)
  have ne: "SYMBOL_MINUTES \<noteq> of_char (CHR 0x27)"
    by (simp add: SYMBOL_MINUTES_def)
  show ?thesis using ssd lit litA hd1 hd2 ne translateChar_reserved by (intro conjI)
qed


end
